theory Spec2Isabelle
  imports Main "HOL-Library.Sublist"
begin

section \<open>Data model\<close>

text \<open>
  The command works on two kinds of cluster objects. Bindings are the typed
  \<^verbatim>\<open>rbacv1.RoleBinding\<close> structs; only the fields that \<^verbatim>\<open>migrate.go\<close> reads or
  writes are kept. Accounts are \<^verbatim>\<open>unstructured.Unstructured\<close> values, that is,
  decoded JSON. Go strings are byte sequences, as \<^typ>\<open>string\<close> is here.
\<close>

record Subject =
  Subject_Kind :: string
  Subject_APIGroup :: string
  Subject_Name :: string
  Subject_Namespace :: string

record RoleRef =
  RoleRef_APIGroup :: string
  RoleRef_Kind :: string
  RoleRef_Name :: string

text \<open>
  \<^verbatim>\<open>nil\<close> maps and slices are the empty association list and the empty list; the zero
  \<^verbatim>\<open>metav1.Time{}\<close> is \<open>None\<close>.
\<close>

record RoleBinding =
  Kind :: string
  APIVersion :: string
  Name :: string
  Namespace :: string
  Labels :: "(string \<times> string) list"
  Annotations :: "(string \<times> string) list"
  ResourceVersion :: string
  UID :: string
  CreationTimestamp :: "int option"
  ManagedFields :: "string list"
  Subjects :: "Subject list"
  RoleRef :: RoleRef

text \<open>
  A decoded JSON value: the type assertions of \<^verbatim>\<open>buildIDMap\<close> distinguish strings,
  objects (\<^verbatim>\<open>map[string]interface{}\<close>) and everything else.
\<close>

datatype json = JString string | JObject "(string \<times> json) list" | JOther

type_synonym Unstructured = "(string \<times> json) list"

text \<open>
  The two ways the process ends early: \<^verbatim>\<open>log.Fatalf\<close> (message arguments kept) and
  the runtime panic of an index out of range (index and length kept).
\<close>

datatype error = Fatal "string list" | IndexOutOfRange nat nat

type_synonym Transform = "string \<Rightarrow> error + string"

section \<open>Library functions used by the command\<close>

text \<open>
  \<^verbatim>\<open>strings.Replace(s, old, new, 1)\<close>: the first occurrence of \<open>old\<close> in \<open>s\<close> is
  replaced by \<open>new\<close>; an empty \<open>old\<close> matches at the start of \<open>s\<close>.
\<close>

fun Replace1 :: "string \<Rightarrow> string \<Rightarrow> string \<Rightarrow> string" where
  "Replace1 [] old new = (if old = [] then new else [])"
| "Replace1 (c # cs) old new =
     (if prefix old (c # cs) then new @ drop (length old) (c # cs)
      else c # Replace1 cs old new)"

text \<open>\<^verbatim>\<open>strings.Contains(s, substr)\<close>.\<close>

definition Contains :: "string \<Rightarrow> string \<Rightarrow> bool" where
  "Contains s substr = sublist substr s"

text \<open>The number of positions of a non-empty \<open>s\<close> at which \<open>substr\<close> starts.\<close>

fun occurrences :: "string \<Rightarrow> string \<Rightarrow> nat" where
  "occurrences [] substr = 0"
| "occurrences (c # cs) substr =
     (if prefix substr (c # cs) then 1 else 0) + occurrences cs substr"

text \<open>
  \<^verbatim>\<open>Unstructured.GetName\<close>: the string at \<^verbatim>\<open>metadata.name\<close>, and the empty string when
  the path is missing or does not hold a string.
\<close>

definition GetName :: "Unstructured \<Rightarrow> string" where
  "GetName obj =
     (case map_of obj ''metadata'' of
        Some (JObject md) \<Rightarrow>
          (case map_of md ''name'' of Some (JString n) \<Rightarrow> n | _ \<Rightarrow> [])
      | _ \<Rightarrow> [])"

section \<open>cleanEmail\<close>

text \<open>
  \<^verbatim>\<open>regexp.MustCompile(`\+[^@]+@`)\<close>: a match starts at a \<open>+\<close>, runs over one or more
  bytes other than \<open>@\<close> (greedily, which is the only way to reach the \<open>@\<close>) and ends
  with the \<open>@\<close>. \<open>match_plus_tag s\<close> is what is left of \<open>s\<close> after a match at its
  start, if there is one.
\<close>

definition match_plus_tag :: "string \<Rightarrow> string option" where
  "match_plus_tag s =
     (case s of
        [] \<Rightarrow> None
      | c # cs \<Rightarrow>
          if c = CHR ''+'' \<and> takeWhile (\<lambda>x. x \<noteq> CHR ''@'') cs \<noteq> []
             \<and> dropWhile (\<lambda>x. x \<noteq> CHR ''@'') cs \<noteq> []
          then Some (tl (dropWhile (\<lambda>x. x \<noteq> CHR ''@'') cs))
          else None)"

text \<open>
  \<^verbatim>\<open>re.ReplaceAllString(email, "@")\<close>: scanning from the left, every match is replaced
  by \<open>@\<close> and the scan goes on after the match; a byte at which no match starts is
  copied.
\<close>

function cleanEmail :: "string \<Rightarrow> string" where
  "cleanEmail [] = []"
| "cleanEmail (c # cs) =
     (case match_plus_tag (c # cs) of
        Some rest \<Rightarrow> CHR ''@'' # cleanEmail rest
      | None \<Rightarrow> c # cleanEmail cs)"
  by pat_completeness auto
termination
proof (relation "measure length")
  show "wf (measure length)" by simp
next
  fix c cs rest
  assume "match_plus_tag (c # cs) = Some rest"
  then have "rest = tl (dropWhile (\<lambda>x. x \<noteq> CHR ''@'') cs)"
    by (simp add: match_plus_tag_def split: if_splits)
  moreover have "length (dropWhile (\<lambda>x. x \<noteq> CHR ''@'') cs) \<le> length cs"
    by (rule length_dropWhile_le)
  ultimately show "(rest, c # cs) \<in> measure length" by simp
next
  fix c :: char and cs :: string
  show "(cs, c # cs) \<in> measure length" by simp
qed

section \<open>buildIDMap\<close>

text \<open>
  The three type assertions of \<^verbatim>\<open>buildIDMap\<close>: \<^verbatim>\<open>account.Object["spec"]\<close> must be an
  object, its \<^verbatim>\<open>propagatedClaims\<close> must be an object, and the \<^verbatim>\<open>email\<close> of that must
  be a string. Each failure prints a line and goes on to the next account
  (\<^verbatim>\<open>continue\<close>); the result here is \<open>None\<close>.
\<close>

definition account_email :: "Unstructured \<Rightarrow> string option" where
  "account_email obj =
     (case map_of obj ''spec'' of
        Some (JObject spec) \<Rightarrow>
          (case map_of spec ''propagatedClaims'' of
             Some (JObject claims) \<Rightarrow>
               (case map_of claims ''email'' of
                  Some (JString email) \<Rightarrow> Some email
                | _ \<Rightarrow> None)
           | _ \<Rightarrow> None)
      | _ \<Rightarrow> None)"

text \<open>
  The loop of \<^verbatim>\<open>buildIDMap\<close> over \<^verbatim>\<open>userAccounts.Items\<close>, with the map built so far.
  A transform may end the process (\<^verbatim>\<open>getUser\<close> does, through \<^verbatim>\<open>log.Fatalf\<close> in
  \<^verbatim>\<open>searchLDAP\<close>), which ends the loop.
\<close>

fun buildIDMap_loop ::
  "Transform \<Rightarrow> (string \<rightharpoonup> string) \<Rightarrow> Unstructured list \<Rightarrow> error + (string \<rightharpoonup> string)"
where
  "buildIDMap_loop transform idMap [] = Inr idMap"
| "buildIDMap_loop transform idMap (account # accounts) =
     (let name = GetName account in
      case account_email account of
        None \<Rightarrow> buildIDMap_loop transform idMap accounts
      | Some email \<Rightarrow>
          (case transform email of
             Inl e \<Rightarrow> Inl e
           | Inr ident \<Rightarrow>
               buildIDMap_loop transform
                 (if ident \<noteq> [] then idMap(name \<mapsto> ident) else idMap) accounts))"

definition buildIDMap :: "Unstructured list \<Rightarrow> Transform \<Rightarrow> error + (string \<rightharpoonup> string)" where
  "buildIDMap userAccounts transform = buildIDMap_loop transform Map.empty userAccounts"

text \<open>\<^verbatim>\<open>cleanEmail\<close> as a \<open>Transform\<close>: it never ends the process.\<close>

definition cleanEmail_transform :: Transform where
  "cleanEmail_transform email = Inr (cleanEmail email)"

section \<open>mutateTenantRoleBindings\<close>

text \<open>
  The state of the loop is the list of migrated bindings and the map
  \<^verbatim>\<open>processedNamespaces\<close>. Its counters are Go \<^verbatim>\<open>int\<close>s that count elements of a slice,
  so they stay far below the 64-bit bound and are natural numbers here.
\<close>

type_synonym mutate_state = "RoleBinding list \<times> (string \<rightharpoonup> nat)"

text \<open>Lines 264 to 267: a namespace seen for the first time gets the count 0.\<close>

definition track_namespace :: "(string \<rightharpoonup> nat) \<Rightarrow> string \<Rightarrow> (string \<rightharpoonup> nat)" where
  "track_namespace processedNamespaces namespace =
     (case processedNamespaces namespace of
        None \<Rightarrow> processedNamespaces(namespace \<mapsto> 0)
      | Some _ \<Rightarrow> processedNamespaces)"

text \<open>Reading \<^verbatim>\<open>processedNamespaces[namespace]\<close>: a missing key reads as 0.\<close>

definition migrated_count :: "(string \<rightharpoonup> nat) \<Rightarrow> string \<Rightarrow> nat" where
  "migrated_count processedNamespaces namespace =
     (case processedNamespaces namespace of None \<Rightarrow> 0 | Some n \<Rightarrow> n)"

text \<open>\<^verbatim>\<open>processedNamespaces[namespace]++\<close>.\<close>

definition increment :: "(string \<rightharpoonup> nat) \<Rightarrow> string \<Rightarrow> (string \<rightharpoonup> nat)" where
  "increment processedNamespaces namespace =
     processedNamespaces(namespace \<mapsto> migrated_count processedNamespaces namespace + 1)"

text \<open>Lines 278 to 293: the migrated copy of a binding whose first subject resolved.\<close>

definition migrated_binding :: "RoleBinding \<Rightarrow> Subject \<Rightarrow> Subject list \<Rightarrow> string \<Rightarrow> RoleBinding" where
  "migrated_binding rb s0 ss ident =
     (let rbName = Name rb;
          user = Subject_Name s0;
          role = RoleRef_Name (RoleRef rb);
          cRole = Replace1 role ''appstudio'' ''konflux'';
          nrbName = Replace1 rbName ''appstudio'' ''konflux'';
          nrbName = Replace1 nrbName user ident
      in rb\<lparr>Subjects := s0\<lparr>Subject_Name := ident\<rparr> # ss,
            RoleRef := (RoleRef rb)\<lparr>RoleRef_Kind := ''ClusterRole'', RoleRef_Name := cRole\<rparr>,
            Name := nrbName,
            Annotations := [],
            Labels := [(''konflux-ci.dev/type'', ''user'')],
            ResourceVersion := [],
            UID := [],
            CreationTimestamp := None,
            ManagedFields := [],
            APIVersion := ''rbac.authorization.k8s.io/v1'',
            Kind := ''RoleBinding''\<rparr>)"

text \<open>
  One iteration of the loop (lines 262 to 300). \<^verbatim>\<open>log.Fatalf\<close> ends the process when
  there is more than one subject; \<^verbatim>\<open>rb.Subjects[0]\<close> panics when there is none.
  This is the iteration on values: what it adds to \<^verbatim>\<open>mrbList\<close> and to
  \<^verbatim>\<open>processedNamespaces\<close>. What line 281 leaves in the caller's slice is
  \<open>write_through\<close> below. Within one call nothing reads an element again, and the
  elements of a list decoded from the cluster share no array.
\<close>

definition mutate_step ::
  "(string \<rightharpoonup> string) \<Rightarrow> mutate_state \<Rightarrow> RoleBinding \<Rightarrow> error + mutate_state"
where
  "mutate_step idMap st rb =
     (let mrbList = fst st;
          namespace = Namespace rb;
          processedNamespaces = track_namespace (snd st) namespace;
          rbName = Name rb
      in if length (Subjects rb) > 1 then Inl (Fatal [rbName, namespace])
         else case Subjects rb of
           [] \<Rightarrow> Inl (IndexOutOfRange 0 0)
         | s0 # ss \<Rightarrow>
             (case idMap (Subject_Name s0) of
                Some ident \<Rightarrow>
                  Inr (mrbList @ [migrated_binding rb s0 ss ident],
                       increment processedNamespaces namespace)
              | None \<Rightarrow> Inr (mrbList, processedNamespaces)))"

fun mutate_loop ::
  "(string \<rightharpoonup> string) \<Rightarrow> mutate_state \<Rightarrow> RoleBinding list \<Rightarrow> error + mutate_state"
where
  "mutate_loop idMap st [] = Inr st"
| "mutate_loop idMap st (rb # rbList) =
     (case mutate_step idMap st rb of
        Inl e \<Rightarrow> Inl e
      | Inr st' \<Rightarrow> mutate_loop idMap st' rbList)"

text \<open>
  Lines 302 to 309 print the namespaces whose count is 0, ranging over the map. Go
  leaves the order of a \<^verbatim>\<open>range\<close> over a map open; \<open>keys\<close> is the order the runtime
  took, a list of the keys of the map without repetition.
\<close>

definition orphan_report :: "string list \<Rightarrow> (string \<rightharpoonup> nat) \<Rightarrow> string list" where
  "orphan_report keys processedNamespaces =
     filter (\<lambda>ns. processedNamespaces ns = Some 0) keys"

definition range_order :: "string list \<Rightarrow> (string \<rightharpoonup> nat) \<Rightarrow> bool" where
  "range_order keys m = (distinct keys \<and> set keys = dom m)"

text \<open>
  The whole function: the returned \<^verbatim>\<open>mrbList\<close> and the printed orphan namespaces.
  \<open>range_keys\<close> gives the runtime's order for the map it ranges over.
\<close>

definition mutateTenantRoleBindings ::
  "((string \<rightharpoonup> nat) \<Rightarrow> string list) \<Rightarrow> (string \<rightharpoonup> string) \<Rightarrow> RoleBinding list
     \<Rightarrow> error + (RoleBinding list \<times> string list)"
where
  "mutateTenantRoleBindings range_keys idMap rbList =
     (case mutate_loop idMap ([], Map.empty) rbList of
        Inl e \<Rightarrow> Inl e
      | Inr (mrbList, processedNamespaces) \<Rightarrow>
          Inr (mrbList, orphan_report (range_keys processedNamespaces) processedNamespaces))"

text \<open>
  The caller's slice. The loop variable \<^verbatim>\<open>rb\<close> is a copy of \<^verbatim>\<open>rbList[i]\<close>, and the
  assignments to its fields stay in the copy; but \<^verbatim>\<open>rb.Subjects\<close> is a slice header
  over the array of \<^verbatim>\<open>rbList[i].Subjects\<close>, so line 281 writes the identity into the
  caller's element. \<open>write_through\<close> is the caller's element after an iteration
  that returns.
\<close>

definition write_through :: "(string \<rightharpoonup> string) \<Rightarrow> RoleBinding \<Rightarrow> RoleBinding" where
  "write_through idMap rb =
     (case Subjects rb of
        [] \<Rightarrow> rb
      | s0 # ss \<Rightarrow>
          (case idMap (Subject_Name s0) of
             Some ident \<Rightarrow> rb\<lparr>Subjects := s0\<lparr>Subject_Name := ident\<rparr> # ss\<rparr>
           | None \<Rightarrow> rb))"

text \<open>
  The loop again, with the caller's slice: \<open>visited\<close> are its elements behind the loop,
  as the loop left them, and the last argument those still to come.
\<close>

fun mutate_loop_store ::
  "(string \<rightharpoonup> string) \<Rightarrow> mutate_state \<Rightarrow> RoleBinding list \<Rightarrow> RoleBinding list
     \<Rightarrow> error + (mutate_state \<times> RoleBinding list)"
where
  "mutate_loop_store idMap st visited [] = Inr (st, visited)"
| "mutate_loop_store idMap st visited (rb # rbList) =
     (case mutate_step idMap st rb of
        Inl e \<Rightarrow> Inl e
      | Inr st' \<Rightarrow> mutate_loop_store idMap st' (visited @ [write_through idMap rb]) rbList)"

text \<open>
  A call of the function: what it returns and prints, and the caller's slice when it
  has returned.
\<close>

definition mutateTenantRoleBindings_call ::
  "((string \<rightharpoonup> nat) \<Rightarrow> string list) \<Rightarrow> (string \<rightharpoonup> string) \<Rightarrow> RoleBinding list
     \<Rightarrow> error + ((RoleBinding list \<times> string list) \<times> RoleBinding list)"
where
  "mutateTenantRoleBindings_call range_keys idMap rbList =
     (case mutate_loop_store idMap ([], Map.empty) [] rbList of
        Inl e \<Rightarrow> Inl e
      | Inr ((mrbList, processedNamespaces), rbList') \<Rightarrow>
          Inr ((mrbList, orphan_report (range_keys processedNamespaces) processedNamespaces),
               rbList'))"

text \<open>
  Two calls in a row with the same arguments, the mapping and the slice; the second
  reads the slice as the first left it. The result is the two migrated lists.
\<close>

definition mutateTenantRoleBindings_twice ::
  "((string \<rightharpoonup> nat) \<Rightarrow> string list) \<Rightarrow> (string \<rightharpoonup> string) \<Rightarrow> RoleBinding list
     \<Rightarrow> error + (RoleBinding list \<times> RoleBinding list)"
where
  "mutateTenantRoleBindings_twice range_keys idMap rbList =
     (case mutateTenantRoleBindings_call range_keys idMap rbList of
        Inl e \<Rightarrow> Inl e
      | Inr (first, rbList') \<Rightarrow>
          (case mutateTenantRoleBindings_call range_keys idMap rbList' of
             Inl e \<Rightarrow> Inl e
           | Inr (second, rbList'') \<Rightarrow> Inr (fst first, fst second)))"

section \<open>writeMigratedRoleBindings\<close>

text \<open>\<^verbatim>\<open>fmt.Sprintf("(%s-%s)", rb.Namespace, rb.Name)\<close>.\<close>

definition processedRB_key :: "RoleBinding \<Rightarrow> string" where
  "processedRB_key rb = ''('' @ Namespace rb @ ''-'' @ Name rb @ '')''"

text \<open>
  The loop of lines 334 to 369, with the keys seen so far. The result is the bindings
  written to the file and the bindings reported as already processed, both in input
  order. Creating the file, encoding and writing are taken to succeed; a failure
  there only logs, and leaves the key marked as seen.
\<close>

fun write_loop ::
  "string set \<Rightarrow> RoleBinding list \<Rightarrow> RoleBinding list \<times> RoleBinding list"
where
  "write_loop processedRBs [] = ([], [])"
| "write_loop processedRBs (rb # rbList) =
     (if processedRB_key rb \<in> processedRBs
      then (let (written, skipped) = write_loop processedRBs rbList
            in (written, rb # skipped))
      else (let (written, skipped) = write_loop (insert (processedRB_key rb) processedRBs) rbList
            in (rb # written, skipped)))"

definition writeMigratedRoleBindings :: "RoleBinding list \<Rightarrow> RoleBinding list \<times> RoleBinding list" where
  "writeMigratedRoleBindings rbList = write_loop {} rbList"

section \<open>migrate\<close>

text \<open>
  Lines 393 to 395: the bindings are transformed and what comes back is written. When
  the transformation ends the process, nothing is written.
\<close>

definition migrate ::
  "((string \<rightharpoonup> nat) \<Rightarrow> string list) \<Rightarrow> (string \<rightharpoonup> string) \<Rightarrow> RoleBinding list
     \<Rightarrow> error + (RoleBinding list \<times> RoleBinding list)"
where
  "migrate range_keys idMap rbList =
     (case mutateTenantRoleBindings range_keys idMap rbList of
        Inl e \<Rightarrow> Inl e
      | Inr (mrbList, orphans) \<Rightarrow> Inr (writeMigratedRoleBindings mrbList))"

section \<open>Example inputs\<close>

text \<open>
  A binding as the cluster lists it: in \<open>namespace\<close>, called \<open>name\<close>, granting the role
  \<open>role\<close> to the users \<open>users\<close>, with the metadata the server adds.
\<close>

definition listed_binding :: "string \<Rightarrow> string \<Rightarrow> string list \<Rightarrow> string \<Rightarrow> RoleBinding" where
  "listed_binding namespace name users role =
     \<lparr>Kind = [], APIVersion = [], Name = name, Namespace = namespace,
      Labels = [(''toolchain.dev.openshift.com/provider'', ''codeready-toolchain'')],
      Annotations = [(''note'', ''legacy'')],
      ResourceVersion = ''4711'', UID = ''0a1b'', CreationTimestamp = Some 1700000000,
      ManagedFields = [''kubectl''],
      Subjects = map (\<lambda>u. \<lparr>Subject_Kind = ''User'',
                             Subject_APIGroup = ''rbac.authorization.k8s.io'',
                             Subject_Name = u, Subject_Namespace = []\<rparr>) users,
      RoleRef = \<lparr>RoleRef_APIGroup = ''rbac.authorization.k8s.io'',
                 RoleRef_Kind = ''Role'', RoleRef_Name = role\<rparr>\<rparr>"

section \<open>Properties of cleanEmail\<close>

lemma match_plus_tag_Cons:
  "match_plus_tag (c # cs) = Some rest \<longleftrightarrow>
     c = CHR ''+'' \<and> cs \<noteq> [] \<and> hd cs \<noteq> CHR ''@'' \<and> CHR ''@'' \<in> set cs
     \<and> rest = tl (dropWhile (\<lambda>x. x \<noteq> CHR ''@'') cs)"
  by (cases cs) (auto simp: match_plus_tag_def dropWhile_eq_Nil_conv)

lemma match_plus_tag_None:
  "match_plus_tag (c # cs) = None \<longleftrightarrow>
     c \<noteq> CHR ''+'' \<or> cs = [] \<or> hd cs = CHR ''@'' \<or> CHR ''@'' \<notin> set cs"
  by (cases cs) (auto simp: match_plus_tag_def dropWhile_eq_Nil_conv)

lemma set_tl_subset: "set (tl ys) \<subseteq> set ys"
  by (cases ys) auto

lemma set_tl_dropWhile: "set (tl (dropWhile P xs)) \<subseteq> set xs"
proof -
  have "set (tl (dropWhile P xs)) \<subseteq> set (dropWhile P xs)"
    by (rule set_tl_subset)
  also have "\<dots> \<subseteq> set xs"
    by (auto dest: set_dropWhileD)
  finally show ?thesis .
qed

lemma set_cleanEmail: "set (cleanEmail s) \<subseteq> set s"
proof (induction s rule: cleanEmail.induct)
  case 1
  then show ?case by simp
next
  case (2 c cs)
  show ?case
  proof (cases "match_plus_tag (c # cs)")
    case None
    then have "cleanEmail (c # cs) = c # cleanEmail cs" by simp
    moreover have "set (cleanEmail cs) \<subseteq> set cs" using 2(1)[OF None] .
    ultimately show ?thesis by auto
  next
    case (Some rest)
    then have r: "rest = tl (dropWhile (\<lambda>x. x \<noteq> CHR ''@'') cs)" and at: "CHR ''@'' \<in> set cs"
      by (simp_all add: match_plus_tag_Cons)
    have "set rest \<subseteq> set cs" unfolding r by (rule set_tl_dropWhile)
    moreover have "set (cleanEmail rest) \<subseteq> set rest" using 2(2)[OF Some] .
    moreover have "cleanEmail (c # cs) = CHR ''@'' # cleanEmail rest" using Some by simp
    ultimately show ?thesis using at by auto
  qed
qed

lemma hd_cleanEmail: "s \<noteq> [] \<Longrightarrow> hd s = CHR ''@'' \<Longrightarrow> cleanEmail s \<noteq> [] \<and> hd (cleanEmail s) = CHR ''@''"
  by (cases s) (auto simp: match_plus_tag_def)

lemma cleanEmail_Nil_iff: "cleanEmail s = [] \<longleftrightarrow> s = []"
  by (cases s) (auto split: option.splits)

lemma cleanEmail_idem: "cleanEmail (cleanEmail s) = cleanEmail s"
proof (induction s rule: cleanEmail.induct)
  case 1
  then show ?case by simp
next
  case (2 c cs)
  show ?case
  proof (cases "match_plus_tag (c # cs)")
    case (Some rest)
    have "match_plus_tag (CHR ''@'' # cleanEmail rest) = None"
      by (simp add: match_plus_tag_None)
    moreover have "cleanEmail (c # cs) = CHR ''@'' # cleanEmail rest" using Some by simp
    moreover have "cleanEmail (cleanEmail rest) = cleanEmail rest" using 2(2)[OF Some] .
    ultimately show ?thesis by simp
  next
    case None
    have "match_plus_tag (c # cleanEmail cs) = None"
    proof -
      from None consider "c \<noteq> CHR ''+''" | "cs = []" | "cs \<noteq> []" "hd cs = CHR ''@''" | "CHR ''@'' \<notin> set cs"
        by (cases "cs = []") (auto simp: match_plus_tag_None)
      then show ?thesis
      proof cases
        case 1 then show ?thesis by (simp add: match_plus_tag_None)
      next
        case 2 then show ?thesis by (simp add: match_plus_tag_None)
      next
        case 3 then show ?thesis using hd_cleanEmail[of cs] by (simp add: match_plus_tag_None)
      next
        case 4 then show ?thesis using set_cleanEmail[of cs] by (auto simp add: match_plus_tag_None)
      qed
    qed
    moreover have "cleanEmail (c # cs) = c # cleanEmail cs" using None by simp
    moreover have "cleanEmail (cleanEmail cs) = cleanEmail cs" using 2(1)[OF None] .
    ultimately show ?thesis by simp
  qed
qed

lemma cleanEmail_no_at: "CHR ''@'' \<notin> set s \<Longrightarrow> cleanEmail s = s"
  by (induction s) (auto simp: match_plus_tag_None split: option.splits)

lemma cleanEmail_no_plus: "CHR ''+'' \<notin> set s \<Longrightarrow> cleanEmail (s @ t) = s @ cleanEmail t"
  by (induction s) (auto simp: match_plus_tag_Cons split: option.splits)

lemma cleanEmail_tag:
  assumes "tag \<noteq> []" "CHR ''@'' \<notin> set tag"
  shows "cleanEmail (CHR ''+'' # tag @ CHR ''@'' # domain) = CHR ''@'' # cleanEmail domain"
proof -
  have "dropWhile (\<lambda>x. x \<noteq> CHR ''@'') (tag @ CHR ''@'' # domain) = CHR ''@'' # domain"
    using assms by (subst dropWhile_append2) auto
  moreover have "hd (tag @ CHR ''@'' # domain) \<noteq> CHR ''@''"
    using assms by (cases tag) auto
  ultimately have "match_plus_tag (CHR ''+'' # tag @ CHR ''@'' # domain) = Some domain"
    by (simp add: match_plus_tag_Cons)
  then show ?thesis by simp
qed


text \<open>
  Claim C6. An address \<open>local+tag@domain\<close>, where \<open>local\<close> has no \<open>+\<close>, the tag is not
  empty and neither the tag nor the domain has an \<open>@\<close>, is rewritten to
  \<open>local@domain\<close>; and for every string, cleaning a second time changes nothing.
\<close>

theorem cleanEmail_strips_tag_idempotent:
  "(CHR ''+'' \<notin> set local \<and> tag \<noteq> [] \<and> CHR ''@'' \<notin> set tag \<and> CHR ''@'' \<notin> set domain
      \<longrightarrow> cleanEmail (local @ CHR ''+'' # tag @ CHR ''@'' # domain) = local @ CHR ''@'' # domain)
   \<and> cleanEmail (cleanEmail email) = cleanEmail email"
proof -
  have "cleanEmail (local @ CHR ''+'' # tag @ CHR ''@'' # domain) = local @ CHR ''@'' # domain"
    if "CHR ''+'' \<notin> set local" "tag \<noteq> []" "CHR ''@'' \<notin> set tag" "CHR ''@'' \<notin> set domain"
  proof -
    have "cleanEmail (local @ CHR ''+'' # tag @ CHR ''@'' # domain)
        = local @ cleanEmail (CHR ''+'' # tag @ CHR ''@'' # domain)"
      using that(1) by (rule cleanEmail_no_plus)
    also have "\<dots> = local @ CHR ''@'' # cleanEmail domain"
      using cleanEmail_tag [OF that(2,3)] by simp
    also have "\<dots> = local @ CHR ''@'' # domain"
      using cleanEmail_no_at [OF that(4)] by simp
    finally show ?thesis .
  qed
  then show ?thesis by (simp add: cleanEmail_idem)
qed

theorem cleanEmail_strips_tag_idempotent_witness:
  "cleanEmail ''jdoe+dev@redhat.com'' = ''jdoe@redhat.com''
   \<and> cleanEmail (cleanEmail ''a++b@c+d@e+'') = cleanEmail ''a++b@c+d@e+''"
  using cleanEmail_strips_tag_idempotent [of "''jdoe''" "''dev''" "''redhat.com''" "''a++b@c+d@e+''"]
  by simp

section \<open>Properties of buildIDMap\<close>

lemma buildIDMap_loop_nonempty:
  "buildIDMap_loop t m accs = Inr m' \<Longrightarrow> \<forall>k. m k \<noteq> Some [] \<Longrightarrow> m' k \<noteq> Some []"
proof (induction accs arbitrary: m)
  case Nil
  then show ?case by simp
next
  case (Cons a accs)
  show ?case
  proof (cases "account_email a")
    case None
    with Cons show ?thesis by simp
  next
    case (Some email)
    show ?thesis
    proof (cases "t email")
      case (Inl e)
      with Some Cons.prems show ?thesis by simp
    next
      case (Inr ident)
      let ?m = "if ident \<noteq> [] then m(GetName a \<mapsto> ident) else m"
      have "buildIDMap_loop t ?m accs = Inr m'"
        using Cons.prems(1) Some Inr by (simp add: Let_def)
      moreover have "\<forall>k. ?m k \<noteq> Some []"
        using Cons.prems(2) by simp
      ultimately show ?thesis by (rule Cons.IH)
    qed
  qed
qed

lemma buildIDMap_loop_total:
  "\<forall>email. \<not> isl (t email) \<Longrightarrow> \<not> isl (buildIDMap_loop t m accs)"
proof (induction accs arbitrary: m)
  case Nil
  then show ?case by simp
next
  case (Cons a accs)
  show ?case
  proof (cases "account_email a")
    case None
    with Cons show ?thesis by simp
  next
    case (Some email)
    from Cons.prems obtain ident where "t email = Inr ident"
      by (cases "t email") (auto dest: spec[of _ email])
    with Some Cons show ?thesis by (simp add: Let_def)
  qed
qed

lemma buildIDMap_loop_skip:
  "account_email acc = None \<Longrightarrow>
   buildIDMap_loop t m (xs @ acc # ys) = buildIDMap_loop t m (xs @ ys)"
  by (induction xs arbitrary: m) (simp_all add: Let_def split: option.splits sum.splits)

lemma buildIDMap_loop_dom:
  "buildIDMap_loop t m accs = Inr m' \<Longrightarrow> dom m' \<subseteq> dom m \<union> GetName ` set accs"
proof (induction accs arbitrary: m)
  case Nil
  then show ?case by auto
next
  case (Cons a accs)
  show ?case
  proof (cases "account_email a")
    case None
    with Cons.prems have "buildIDMap_loop t m accs = Inr m'" by simp
    from Cons.IH[OF this] show ?thesis by auto
  next
    case (Some email)
    show ?thesis
    proof (cases "t email")
      case (Inl e)
      with Some Cons.prems show ?thesis by simp
    next
      case (Inr ident)
      let ?m = "if ident \<noteq> [] then m(GetName a \<mapsto> ident) else m"
      have "buildIDMap_loop t ?m accs = Inr m'"
        using Cons.prems(1) Some Inr by (simp add: Let_def)
      from Cons.IH[OF this] have "dom m' \<subseteq> dom ?m \<union> GetName ` set accs" .
      moreover have "dom ?m \<subseteq> insert (GetName a) (dom m)" by auto
      ultimately show ?thesis by auto
    qed
  qed
qed

lemma buildIDMap_loop_only:
  "buildIDMap_loop t m accs = Inr m' \<Longrightarrow> m' name = Some v \<Longrightarrow>
   m name = Some v \<or>
   (v \<noteq> [] \<and> (\<exists>a\<in>set accs. GetName a = name \<and>
       (\<exists>email. account_email a = Some email \<and> t email = Inr v)))"
proof (induction accs arbitrary: m)
  case Nil
  then show ?case by simp
next
  case (Cons a accs)
  show ?case
  proof (cases "account_email a")
    case None
    with Cons.prems have "buildIDMap_loop t m accs = Inr m'" by simp
    from Cons.IH[OF this Cons.prems(2)] show ?thesis by auto
  next
    case (Some email)
    show ?thesis
    proof (cases "t email")
      case (Inl e)
      with Some Cons.prems show ?thesis by simp
    next
      case (Inr ident)
      let ?m = "if ident \<noteq> [] then m(GetName a \<mapsto> ident) else m"
      have "buildIDMap_loop t ?m accs = Inr m'"
        using Cons.prems(1) Some Inr by (simp add: Let_def)
      from Cons.IH[OF this Cons.prems(2)]
      consider "?m name = Some v"
        | "v \<noteq> []" "\<exists>b\<in>set accs. GetName b = name \<and>
              (\<exists>email. account_email b = Some email \<and> t email = Inr v)"
        by blast
      then show ?thesis
      proof cases
        case 1
        then show ?thesis using Some Inr by (auto split: if_splits)
      next
        case 2
        then show ?thesis by auto
      qed
    qed
  qed
qed

lemma buildIDMap_loop_frame:
  "buildIDMap_loop t m accs = Inr m' \<Longrightarrow> name \<notin> GetName ` set accs \<Longrightarrow> m' name = m name"
proof (induction accs arbitrary: m)
  case Nil
  then show ?case by simp
next
  case (Cons a accs)
  from Cons.prems(2) have na: "name \<noteq> GetName a" and nr: "name \<notin> GetName ` set accs" by auto
  show ?case
  proof (cases "account_email a")
    case None
    with Cons.prems have "buildIDMap_loop t m accs = Inr m'" by simp
    from Cons.IH[OF this nr] show ?thesis .
  next
    case (Some email)
    show ?thesis
    proof (cases "t email")
      case (Inl e)
      with Some Cons.prems show ?thesis by simp
    next
      case (Inr ident)
      let ?m = "if ident \<noteq> [] then m(GetName a \<mapsto> ident) else m"
      have "buildIDMap_loop t ?m accs = Inr m'"
        using Cons.prems(1) Some Inr by (simp add: Let_def)
      from Cons.IH[OF this nr] na show ?thesis by simp
    qed
  qed
qed

lemma buildIDMap_loop_exact:
  "buildIDMap_loop t m accs = Inr m' \<Longrightarrow> distinct (map GetName accs) \<Longrightarrow>
   a \<in> set accs \<Longrightarrow> account_email a = Some email \<Longrightarrow>
   \<exists>ident. t email = Inr ident \<and>
      m' (GetName a) = (if ident = [] then m (GetName a) else Some ident)"
proof (induction accs arbitrary: m)
  case Nil
  then show ?case by simp
next
  case (Cons b accs)
  from Cons.prems(2) have nb: "GetName b \<notin> GetName ` set accs" and d: "distinct (map GetName accs)"
    by auto
  show ?case
  proof (cases "a = b")
    case True
    show ?thesis
    proof (cases "t email")
      case (Inl e)
      with True Cons.prems show ?thesis by simp
    next
      case (Inr ident)
      let ?m = "if ident \<noteq> [] then m(GetName b \<mapsto> ident) else m"
      have "buildIDMap_loop t ?m accs = Inr m'"
        using Cons.prems(1,4) True Inr by (simp add: Let_def)
      from buildIDMap_loop_frame[OF this nb] have "m' (GetName b) = ?m (GetName b)" .
      with True Inr show ?thesis by simp
    qed
  next
    case False
    with Cons.prems(3) have a: "a \<in> set accs" by simp
    have ne: "GetName a \<noteq> GetName b"
    proof
      assume "GetName a = GetName b"
      with a have "GetName b \<in> GetName ` set accs" by (metis imageI)
      with nb show False by contradiction
    qed
    show ?thesis
    proof (cases "account_email b")
      case None
      with Cons.prems have "buildIDMap_loop t m accs = Inr m'" by simp
      from Cons.IH[OF this d a Cons.prems(4)] show ?thesis .
    next
      case (Some eb)
      show ?thesis
      proof (cases "t eb")
        case (Inl e)
        with Some Cons.prems show ?thesis by simp
      next
        case (Inr ib)
        let ?m = "if ib \<noteq> [] then m(GetName b \<mapsto> ib) else m"
        have "buildIDMap_loop t ?m accs = Inr m'"
          using Cons.prems(1) Some Inr by (simp add: Let_def)
        from Cons.IH[OF this d a Cons.prems(4)] obtain ident where
          i: "t email = Inr ident"
             "m' (GetName a) = (if ident = [] then ?m (GetName a) else Some ident)"
          by blast
        from ne have "?m (GetName a) = m (GetName a)" by simp
        with i show ?thesis by auto
      qed
    qed
  qed
qed



text \<open>
  Claim C8. In the map that \<^verbatim>\<open>buildIDMap\<close> returns, every entry is the result of the
  transform on the email of an account of that name, and that result is not empty. With
  pairwise different account names it is exact: an account with an email has the entry
  of its result when the result is not empty, and no entry when it is empty. So no name
  is mapped to the empty string. The map is returned when the transform never ends the
  process.
\<close>

theorem buildIDMap_entries_are_resolutions:
  "(buildIDMap accounts t = Inr idMap \<and> idMap name = Some ident \<longrightarrow>
      ident \<noteq> [] \<and>
      (\<exists>account\<in>set accounts. GetName account = name \<and>
         (\<exists>email. account_email account = Some email \<and> t email = Inr ident)))
   \<and> (buildIDMap accounts t = Inr idMap \<and> distinct (map GetName accounts)
        \<and> account \<in> set accounts \<and> account_email account = Some email \<longrightarrow>
      (\<exists>result. t email = Inr result \<and>
         idMap (GetName account) = (if result = [] then None else Some result)))
   \<and> (buildIDMap accounts t = Inr idMap \<longrightarrow> idMap name \<noteq> Some [])
   \<and> ((\<forall>email. \<not> isl (t email)) \<longrightarrow> \<not> isl (buildIDMap accounts t))"
proof -
  have only: "ident \<noteq> [] \<and>
      (\<exists>account\<in>set accounts. GetName account = name \<and>
         (\<exists>email. account_email account = Some email \<and> t email = Inr ident))"
    if "buildIDMap accounts t = Inr idMap" "idMap name = Some ident"
    using buildIDMap_loop_only[of t Map.empty accounts idMap name ident] that
    by (simp add: buildIDMap_def)
  have exact: "\<exists>result. t email = Inr result \<and>
         idMap (GetName account) = (if result = [] then None else Some result)"
    if "buildIDMap accounts t = Inr idMap" "distinct (map GetName accounts)"
       "account \<in> set accounts" "account_email account = Some email"
    using buildIDMap_loop_exact[of t Map.empty accounts idMap account email] that
    by (simp add: buildIDMap_def)
  have nonempty: "idMap name \<noteq> Some []" if "buildIDMap accounts t = Inr idMap"
    using buildIDMap_loop_nonempty[of t Map.empty accounts idMap name] that
    by (simp add: buildIDMap_def)
  have total: "\<not> isl (buildIDMap accounts t)" if "\<forall>email. \<not> isl (t email)"
    using buildIDMap_loop_total[of t Map.empty accounts] that
    by (simp add: buildIDMap_def)
  from only exact nonempty total show ?thesis by blast
qed

theorem buildIDMap_entries_are_resolutions_witness:
  "buildIDMap
      [[(''metadata'', JObject [(''name'', JString ''jdoe'')]),
        (''spec'', JObject [(''propagatedClaims'', JObject [(''email'', JString ''jdoe+dev@redhat.com'')])])],
       [(''metadata'', JObject [(''name'', JString ''nomail'')]),
        (''spec'', JObject [(''propagatedClaims'', JObject [(''email'', JString [])])])]]
      cleanEmail_transform = Inr [''jdoe'' \<mapsto> ''jdoe@redhat.com'']
   \<and> cleanEmail_transform ''jdoe+dev@redhat.com'' = Inr ''jdoe@redhat.com''
   \<and> cleanEmail_transform [] = Inr []
   \<and> [''jdoe'' \<mapsto> ''jdoe@redhat.com''] ''jdoe'' = Some ''jdoe@redhat.com''
   \<and> [''jdoe'' \<mapsto> ''jdoe@redhat.com''] ''nomail'' = None
   \<and> ''jdoe@redhat.com'' \<noteq> []"
proof -
  let ?jdoe = "[(''metadata'', JObject [(''name'', JString ''jdoe'')]),
        (''spec'', JObject [(''propagatedClaims'', JObject [(''email'', JString ''jdoe+dev@redhat.com'')])])]"
  let ?nomail = "[(''metadata'', JObject [(''name'', JString ''nomail'')]),
        (''spec'', JObject [(''propagatedClaims'', JObject [(''email'', JString [])])])]"
  let ?idMap = "[''jdoe'' \<mapsto> ''jdoe@redhat.com'']"
  have run: "buildIDMap [?jdoe, ?nomail] cleanEmail_transform = Inr ?idMap"
    by (simp add: buildIDMap_def GetName_def account_email_def cleanEmail_transform_def
        match_plus_tag_def)
  have names: "distinct (map GetName [?jdoe, ?nomail])" "GetName ?nomail = ''nomail''"
    by (simp_all add: GetName_def)
  have mail: "account_email ?nomail = Some []"
    by (simp add: account_email_def)
  have t1: "cleanEmail_transform ''jdoe+dev@redhat.com'' = Inr ''jdoe@redhat.com''"
    by (simp add: cleanEmail_transform_def match_plus_tag_def)
  have t2: "cleanEmail_transform [] = Inr []"
    by (simp add: cleanEmail_transform_def)
  note inst = buildIDMap_entries_are_resolutions [of "[?jdoe, ?nomail]" cleanEmail_transform ?idMap "''jdoe''"
      "''jdoe@redhat.com''" ?nomail "[]"]
  from inst run have "''jdoe@redhat.com'' \<noteq> []" by simp
  moreover from inst run names mail t2 have "?idMap ''nomail'' = None"
    by simp
  ultimately show ?thesis using run t1 t2 by simp
qed

text \<open>
  Claim C7. An account without a \<^verbatim>\<open>spec\<close> object, without a \<^verbatim>\<open>propagatedClaims\<close> object
  in it, or without a string \<^verbatim>\<open>email\<close> in that, changes nothing in the run: the result
  is that of the accounts around it, error or map, and when no other account has its
  name, the name is not a key of the map.
\<close>

theorem buildIDMap_skips_malformed_account:
  assumes "account_email acc = None"
  shows "buildIDMap (xs @ acc # ys) t = buildIDMap (xs @ ys) t
     \<and> (GetName acc \<notin> GetName ` set (xs @ ys) \<longrightarrow> buildIDMap (xs @ acc # ys) t = Inr idMap
          \<longrightarrow> idMap (GetName acc) = None)"
proof -
  have eq: "buildIDMap (xs @ acc # ys) t = buildIDMap (xs @ ys) t"
    using assms by (simp add: buildIDMap_def buildIDMap_loop_skip)
  moreover have "idMap (GetName acc) = None"
    if "GetName acc \<notin> GetName ` set (xs @ ys)" "buildIDMap (xs @ acc # ys) t = Inr idMap"
  proof -
    from that(2) eq have "buildIDMap_loop t Map.empty (xs @ ys) = Inr idMap"
      by (simp add: buildIDMap_def)
    from buildIDMap_loop_dom[OF this] that(1) show ?thesis by auto
  qed
  ultimately show ?thesis by blast
qed


theorem buildIDMap_skips_malformed_account_witness:
  "account_email [(''metadata'', JObject [(''name'', JString ''ghost'')]), (''spec'', JOther)] = None
   \<and> buildIDMap
        [[(''metadata'', JObject [(''name'', JString ''ghost'')]), (''spec'', JOther)],
         [(''metadata'', JObject [(''name'', JString ''jdoe'')]),
          (''spec'', JObject [(''propagatedClaims'', JObject [(''email'', JString ''jdoe+dev@redhat.com'')])])]]
        cleanEmail_transform = Inr [''jdoe'' \<mapsto> ''jdoe@redhat.com'']
   \<and> [''jdoe'' \<mapsto> ''jdoe@redhat.com''] ''ghost'' = None"
proof -
  let ?ghost = "[(''metadata'', JObject [(''name'', JString ''ghost'')]), (''spec'', JOther)]"
  let ?jdoe = "[(''metadata'', JObject [(''name'', JString ''jdoe'')]),
          (''spec'', JObject [(''propagatedClaims'', JObject [(''email'', JString ''jdoe+dev@redhat.com'')])])]"
  have none: "account_email ?ghost = None"
    by (simp add: account_email_def)
  have rest: "buildIDMap ([] @ [?jdoe]) cleanEmail_transform = Inr [''jdoe'' \<mapsto> ''jdoe@redhat.com'']"
    by (simp add: buildIDMap_def GetName_def account_email_def cleanEmail_transform_def
        match_plus_tag_def)
  from buildIDMap_skips_malformed_account [OF none, of "[]" "[?jdoe]" cleanEmail_transform "[''jdoe'' \<mapsto> ''jdoe@redhat.com'']"]
    rest none
  show ?thesis by simp
qed

section \<open>Properties of Replace1\<close>

lemma Replace1_absent: "\<not> sublist old s \<Longrightarrow> Replace1 s old new = s"
proof (induction s)
  case Nil
  then show ?case by auto
next
  case (Cons c cs)
  from Cons.prems have np: "\<not> prefix old (c # cs)" and ns: "\<not> sublist old cs"
    by (auto simp: sublist_Cons_right)
  with Cons.IH show ?case by simp
qed

lemma occurrences_zero: "occurrences s t = 0 \<Longrightarrow> t \<noteq> [] \<Longrightarrow> \<not> sublist t s"
  by (induction s) (auto simp: sublist_Cons_right split: if_splits)

lemma prefix_Replace1:
  assumes "new \<noteq> []" "old \<noteq> []"
  shows "hd new \<notin> set t \<Longrightarrow> prefix t (Replace1 s old new) \<Longrightarrow> prefix t s"
proof (induction s arbitrary: t)
  case Nil
  with assms show ?case by simp
next
  case (Cons c cs)
  show ?case
  proof (cases "prefix old (c # cs)")
    case True
    with Cons.prems have "prefix t (new @ drop (length old) (c # cs))" by simp
    with Cons.prems(1) assms(1) have "t = []" by (cases t; cases new) auto
    then show ?thesis by simp
  next
    case False
    with Cons.prems have p: "prefix t (c # Replace1 cs old new)" by simp
    show ?thesis
    proof (cases t)
      case Nil
      then show ?thesis by simp
    next
      case (Cons d t')
      with p have "d = c" "prefix t' (Replace1 cs old new)" by auto
      moreover from Cons Cons.prems(1) have "hd new \<notin> set t'" by simp
      ultimately show ?thesis using Cons.IH Cons by simp
    qed
  qed
qed

lemma not_sublist_append_left:
  "old \<noteq> [] \<Longrightarrow> hd old \<notin> set new \<Longrightarrow> \<not> sublist old rest \<Longrightarrow> \<not> sublist old (new @ rest)"
proof (induction new)
  case Nil
  then show ?case by simp
next
  case (Cons n ns)
  then have "\<not> sublist old (ns @ rest)" by simp
  moreover have "\<not> prefix old (n # ns @ rest)"
    using Cons.prems(1,2) by (cases old) auto
  ultimately show ?case by (simp add: sublist_Cons_right)
qed

lemma not_sublist_drop: "\<not> sublist t s \<Longrightarrow> \<not> sublist t (drop n s)"
  by (metis sublist_drop sublist_order.order_trans)

lemma Replace1_removes_single:
  assumes "new \<noteq> []" "old \<noteq> []" "hd new \<notin> set old" "hd old \<notin> set new"
  shows "occurrences s old \<le> 1 \<Longrightarrow> \<not> sublist old (Replace1 s old new)"
proof (induction s)
  case Nil
  with assms show ?case by simp
next
  case (Cons c cs)
  show ?case
  proof (cases "prefix old (c # cs)")
    case True
    with Cons.prems have "occurrences cs old = 0" by simp
    then have "\<not> sublist old cs" using assms(2) by (rule occurrences_zero)
    then have "\<not> sublist old (c # cs)" if "\<not> prefix old (c # cs)" for c
      using that by (simp add: sublist_Cons_right)
    have "\<not> sublist old (drop (length old) (c # cs))"
    proof -
      from assms(2) obtain k where "length old = Suc k" by (cases old) auto
      then have "drop (length old) (c # cs) = drop k cs" by simp
      with \<open>\<not> sublist old cs\<close> show ?thesis by (simp add: not_sublist_drop)
    qed
    then have "\<not> sublist old (new @ drop (length old) (c # cs))"
      using assms(2,4) by (simp add: not_sublist_append_left)
    with True show ?thesis by simp
  next
    case False
    with Cons.prems have "occurrences cs old \<le> 1" by simp
    then have ih: "\<not> sublist old (Replace1 cs old new)" by (rule Cons.IH)
    have "\<not> prefix old (Replace1 (c # cs) old new)"
      using prefix_Replace1[OF assms(1,2,3), of "c # cs"] False by blast
    with False ih show ?thesis by (simp add: sublist_Cons_right)
  qed
qed

lemma Replace1_removes_single_token:
  "occurrences s ''appstudio'' \<le> 1 \<Longrightarrow> \<not> Contains (Replace1 s ''appstudio'' ''konflux'') ''appstudio''"
  unfolding Contains_def by (rule Replace1_removes_single) simp_all

lemma Replace1_decomp:
  "sublist old s \<Longrightarrow> \<exists>pre suf. s = pre @ old @ suf \<and> Replace1 s old new = pre @ new @ suf"
proof (induction s)
  case Nil
  then show ?case by simp
next
  case (Cons c cs)
  show ?case
  proof (cases "prefix old (c # cs)")
    case True
    then obtain suf where suf: "c # cs = old @ suf" by (auto simp: prefix_def)
    then have d: "drop (length old) (c # cs) = suf" by (metis append_eq_conv_conj)
    from True have "Replace1 (c # cs) old new = new @ drop (length old) (c # cs)" by simp
    with d have "Replace1 (c # cs) old new = [] @ new @ suf" by simp
    moreover from suf have "c # cs = [] @ old @ suf" by simp
    ultimately show ?thesis by blast
  next
    case False
    with Cons.prems have "sublist old cs" by (simp add: sublist_Cons_right)
    from Cons.IH[OF this] obtain pre suf where
      "cs = pre @ old @ suf" "Replace1 cs old new = pre @ new @ suf" by blast
    with False have "c # cs = (c # pre) @ old @ suf
        \<and> Replace1 (c # cs) old new = (c # pre) @ new @ suf" by simp
    then show ?thesis by blast
  qed
qed

lemma not_sublist_straddle:
  assumes "t = t1 @ t2" "t1 \<noteq> []" "t2 \<noteq> []" "suffix t1 xs" "prefix t2 ys"
  shows "xs \<noteq> [] \<and> ys \<noteq> [] \<and> last xs \<in> set t \<and> hd ys \<in> set t"
proof -
  from assms(4) obtain as where xs: "xs = as @ t1" by (auto simp: suffix_def)
  from assms(5) obtain bs where ys: "ys = t2 @ bs" by (auto simp: prefix_def)
  from xs assms(2) have "xs \<noteq> []" "last xs = last t1" by simp_all
  moreover from ys assms(3) have "ys \<noteq> []" "hd ys = hd t2" by simp_all
  moreover from assms(1,2) have "last t1 \<in> set t" by simp
  moreover from assms(1,3) have "hd t2 \<in> set t" by simp
  ultimately show ?thesis by simp
qed

lemma sublist_two:
  assumes "sublist t (xs @ ys)" "\<not> sublist t xs" "\<not> sublist t ys"
  shows "xs \<noteq> [] \<and> ys \<noteq> [] \<and> last xs \<in> set t \<and> hd ys \<in> set t"
proof -
  from assms(1) obtain t1 t2 where s: "t = t1 @ t2" "suffix t1 xs" "prefix t2 ys"
    using assms(2,3) by (auto simp: sublist_append)
  have "t1 \<noteq> []"
  proof
    assume "t1 = []"
    with s have "prefix t ys" by simp
    with assms(3) show False by (simp add: prefix_imp_sublist)
  qed
  moreover have "t2 \<noteq> []"
  proof
    assume "t2 = []"
    with s have "suffix t xs" by simp
    with assms(2) show False by (simp add: suffix_imp_sublist)
  qed
  ultimately show ?thesis using s by (intro not_sublist_straddle)
qed

lemma not_sublist_delimited:
  assumes "\<not> sublist t pre" "\<not> sublist t mid" "\<not> sublist t suf"
    and left: "pre = [] \<or> last pre \<notin> set t \<or> (mid \<noteq> [] \<and> hd mid \<notin> set t)"
    and right: "suf = [] \<or> hd suf \<notin> set t \<or> (mid \<noteq> [] \<and> last mid \<notin> set t)"
  shows "\<not> sublist t (pre @ mid @ suf)"
proof -
  have ms: "\<not> sublist t (mid @ suf)"
  proof
    assume "sublist t (mid @ suf)"
    from sublist_two[OF this assms(2,3)] right show False by auto
  qed
  show ?thesis
  proof
    assume "sublist t (pre @ mid @ suf)"
    from sublist_two[OF this assms(1) ms]
    have p: "pre \<noteq> []" "last pre \<in> set t" "hd (mid @ suf) \<in> set t" by simp_all
    with left have m: "mid \<noteq> []" "hd mid \<notin> set t" by auto
    with p(3) show False by simp
  qed
qed

section \<open>Properties of mutateTenantRoleBindings\<close>

lemma migrated_count_track [simp]:
  "migrated_count (track_namespace pn ns) k = migrated_count pn k"
  by (simp add: migrated_count_def track_namespace_def split: option.splits)

lemma migrated_count_increment [simp]:
  "migrated_count (increment pn ns) k = (if k = ns then migrated_count pn ns + 1 else migrated_count pn k)"
  by (simp add: migrated_count_def increment_def)

lemma dom_track [simp]: "dom (track_namespace pn ns) = insert ns (dom pn)"
  by (auto simp: track_namespace_def split: option.splits)

lemma dom_increment [simp]: "dom (increment pn ns) = insert ns (dom pn)"
  by (simp add: increment_def)

lemma Namespace_migrated_binding [simp]:
  "Namespace (migrated_binding rb s0 ss ident) = Namespace rb"
  by (simp add: migrated_binding_def Let_def)

lemma mutate_step_many:
  "length (Subjects rb) > 1 \<Longrightarrow> mutate_step idMap st rb = Inl (Fatal [Name rb, Namespace rb])"
  by (simp add: mutate_step_def Let_def)

lemma mutate_step_none:
  "Subjects rb = [] \<Longrightarrow> mutate_step idMap st rb = Inl (IndexOutOfRange 0 0)"
  by (simp add: mutate_step_def Let_def)

lemma mutate_step_resolved:
  "Subjects rb = [s] \<Longrightarrow> idMap (Subject_Name s) = Some ident \<Longrightarrow>
   mutate_step idMap st rb =
     Inr (fst st @ [migrated_binding rb s [] ident],
          increment (track_namespace (snd st) (Namespace rb)) (Namespace rb))"
  by (simp add: mutate_step_def Let_def)

lemma mutate_step_unresolved:
  "Subjects rb = [s] \<Longrightarrow> idMap (Subject_Name s) = None \<Longrightarrow>
   mutate_step idMap st rb = Inr (fst st, track_namespace (snd st) (Namespace rb))"
  by (simp add: mutate_step_def Let_def)

lemma mutate_step_Inr_single:
  "mutate_step idMap st rb = Inr st' \<Longrightarrow> length (Subjects rb) = 1"
  by (cases "Subjects rb") (auto simp: mutate_step_def Let_def split: if_splits)

lemma length_one_conv: "length xs = Suc 0 \<longleftrightarrow> (\<exists>x. xs = [x])"
  by (cases xs) auto

lemma mutate_step_single_total:
  "length (Subjects rb) = 1 \<Longrightarrow> \<not> isl (mutate_step idMap st rb)"
  by (auto simp: length_one_conv mutate_step_def Let_def split: option.splits)

lemma mutate_loop_Inr_single:
  "mutate_loop idMap st rbList = Inr st' \<Longrightarrow> rb \<in> set rbList \<Longrightarrow> length (Subjects rb) = 1"
proof (induction rbList arbitrary: st)
  case Nil
  then show ?case by simp
next
  case (Cons b bs)
  from Cons.prems(1) obtain st1 where s1: "mutate_step idMap st b = Inr st1"
    and l1: "mutate_loop idMap st1 bs = Inr st'"
    by (auto split: sum.splits)
  from Cons.prems(2) consider "rb = b" | "rb \<in> set bs" by auto
  then show ?case
  proof cases
    case 1
    with s1 show ?thesis by (simp add: mutate_step_Inr_single)
  next
    case 2
    with l1 show ?thesis by (rule Cons.IH)
  qed
qed

lemma mutate_loop_single_total:
  "\<forall>b\<in>set rbList. length (Subjects b) = 1 \<Longrightarrow> \<not> isl (mutate_loop idMap st rbList)"
proof (induction rbList arbitrary: st)
  case Nil
  then show ?case by simp
next
  case (Cons b bs)
  then have "\<not> isl (mutate_step idMap st b)" by (simp add: mutate_step_single_total)
  then obtain st1 where "mutate_step idMap st b = Inr st1" by (cases "mutate_step idMap st b") auto
  with Cons show ?case by simp
qed

lemma mutate_loop_append:
  "mutate_loop idMap st (xs @ ys) =
     (case mutate_loop idMap st xs of Inl e \<Rightarrow> Inl e | Inr st' \<Rightarrow> mutate_loop idMap st' ys)"
  by (induction xs arbitrary: st) (auto split: sum.splits)

lemma mutate_loop_first_bad:
  assumes "\<forall>b\<in>set pre. length (Subjects b) = 1" "\<And>st. mutate_step idMap st rb = Inl e"
  shows "mutate_loop idMap st (pre @ rb # post) = Inl e"
proof -
  from assms(1) have "\<not> isl (mutate_loop idMap st pre)" by (rule mutate_loop_single_total)
  then obtain st1 where "mutate_loop idMap st pre = Inr st1"
    by (cases "mutate_loop idMap st pre") auto
  then show ?thesis by (simp add: mutate_loop_append assms(2))
qed

lemma mutateTenantRoleBindings_isl:
  "isl (mutateTenantRoleBindings range_keys idMap rbList) = isl (mutate_loop idMap ([], Map.empty) rbList)"
  by (simp add: mutateTenantRoleBindings_def split: sum.splits prod.splits)

lemma mutateTenantRoleBindings_Inl:
  "mutate_loop idMap ([], Map.empty) rbList = Inl e \<Longrightarrow>
   mutateTenantRoleBindings range_keys idMap rbList = Inl e"
  by (simp add: mutateTenantRoleBindings_def)

lemma migrate_Inl:
  "mutateTenantRoleBindings range_keys idMap rbList = Inl e \<Longrightarrow>
   migrate range_keys idMap rbList = Inl e"
  by (simp add: migrate_def)

lemma migrate_isl:
  "isl (migrate range_keys idMap rbList) = isl (mutateTenantRoleBindings range_keys idMap rbList)"
  by (simp add: migrate_def split: sum.splits prod.splits)

text \<open>
  Claim C3. When some binding of the list has more than one subject, the
  transformation ends the process and so does the run, which writes nothing. When
  every binding before the first such one has exactly one subject, the end is the
  \<^verbatim>\<open>log.Fatalf\<close> naming that binding and its namespace.
\<close>

theorem multi_subject_binding_aborts:
  "(rb \<in> set rbList \<and> length (Subjects rb) > 1 \<longrightarrow>
      isl (mutateTenantRoleBindings range_keys idMap rbList)
      \<and> isl (migrate range_keys idMap rbList))
   \<and> ((\<forall>b\<in>set pre. length (Subjects b) = 1) \<and> length (Subjects rb) > 1 \<longrightarrow>
      mutateTenantRoleBindings range_keys idMap (pre @ rb # post) = Inl (Fatal [Name rb, Namespace rb])
      \<and> migrate range_keys idMap (pre @ rb # post) = Inl (Fatal [Name rb, Namespace rb]))"
proof -
  have "isl (mutate_loop idMap ([], Map.empty) rbList)"
    if "rb \<in> set rbList" "length (Subjects rb) > 1"
  proof (rule ccontr)
    assume "\<not> isl (mutate_loop idMap ([], Map.empty) rbList)"
    then obtain st' where "mutate_loop idMap ([], Map.empty) rbList = Inr st'"
      by (cases "mutate_loop idMap ([], Map.empty) rbList") auto
    from mutate_loop_Inr_single[OF this that(1)] that(2) show False by simp
  qed
  moreover have "mutate_loop idMap ([], Map.empty) (pre @ rb # post) = Inl (Fatal [Name rb, Namespace rb])"
    if "\<forall>b\<in>set pre. length (Subjects b) = 1" "length (Subjects rb) > 1"
    using that(1) by (rule mutate_loop_first_bad) (rule mutate_step_many [OF that(2)])
  ultimately show ?thesis
    by (simp add: mutateTenantRoleBindings_isl migrate_isl mutateTenantRoleBindings_Inl migrate_Inl)
qed

theorem multi_subject_binding_aborts_witness:
  "mutateTenantRoleBindings (\<lambda>m. [''team-a'', ''team-b'']) [''jdoe'' \<mapsto> ''jdoe@redhat.com'']
     ([listed_binding ''team-a'' ''rb-jdoe'' [''jdoe''] ''appstudio-user'']
      @ listed_binding ''team-b'' ''rb-shared'' [''jdoe'', ''asmith''] ''appstudio-user''
      # [listed_binding ''team-b'' ''rb-asmith'' [''asmith''] ''appstudio-user''])
     = Inl (Fatal [''rb-shared'', ''team-b''])
   \<and> isl (migrate (\<lambda>m. [''team-a'', ''team-b'']) [''jdoe'' \<mapsto> ''jdoe@redhat.com'']
     ([listed_binding ''team-a'' ''rb-jdoe'' [''jdoe''] ''appstudio-user'']
      @ listed_binding ''team-b'' ''rb-shared'' [''jdoe'', ''asmith''] ''appstudio-user''
      # [listed_binding ''team-b'' ''rb-asmith'' [''asmith''] ''appstudio-user'']))"
  using multi_subject_binding_aborts [of "listed_binding ''team-b'' ''rb-shared'' [''jdoe'', ''asmith''] ''appstudio-user''"
      "[listed_binding ''team-a'' ''rb-jdoe'' [''jdoe''] ''appstudio-user'']
       @ listed_binding ''team-b'' ''rb-shared'' [''jdoe'', ''asmith''] ''appstudio-user''
       # [listed_binding ''team-b'' ''rb-asmith'' [''asmith''] ''appstudio-user'']"
      "\<lambda>m. [''team-a'', ''team-b'']" "[''jdoe'' \<mapsto> ''jdoe@redhat.com'']"
      "[listed_binding ''team-a'' ''rb-jdoe'' [''jdoe''] ''appstudio-user'']"
      "[listed_binding ''team-b'' ''rb-asmith'' [''asmith''] ''appstudio-user'']"]
  by (simp add: listed_binding_def)

text \<open>
  Claim C10. A binding with no subject passes the check of line 270 and panics at
  \<^verbatim>\<open>rb.Subjects[0]\<close>. A list that holds one makes the transformation end the process;
  the end is that panic when every binding before it has exactly one subject. When
  every binding of the list has exactly one subject, the transformation returns.
\<close>

theorem empty_subjects_panics:
  "(Subjects rb = [] \<longrightarrow> mutate_step idMap st rb = Inl (IndexOutOfRange 0 0))
   \<and> (rb \<in> set rbList \<and> Subjects rb = [] \<longrightarrow> isl (mutateTenantRoleBindings range_keys idMap rbList))
   \<and> ((\<forall>b\<in>set pre. length (Subjects b) = 1) \<and> Subjects rb = [] \<longrightarrow>
        mutateTenantRoleBindings range_keys idMap (pre @ rb # post) = Inl (IndexOutOfRange 0 0))
   \<and> ((\<forall>b\<in>set rbList. length (Subjects b) = 1) \<longrightarrow>
        \<not> isl (mutateTenantRoleBindings range_keys idMap rbList))"
proof -
  have "isl (mutate_loop idMap ([], Map.empty) rbList)"
    if "rb \<in> set rbList" "Subjects rb = []"
  proof (rule ccontr)
    assume "\<not> isl (mutate_loop idMap ([], Map.empty) rbList)"
    then obtain st' where "mutate_loop idMap ([], Map.empty) rbList = Inr st'"
      by (cases "mutate_loop idMap ([], Map.empty) rbList") auto
    from mutate_loop_Inr_single[OF this that(1)] that(2) show False by simp
  qed
  moreover have "mutate_loop idMap ([], Map.empty) (pre @ rb # post) = Inl (IndexOutOfRange 0 0)"
    if "\<forall>b\<in>set pre. length (Subjects b) = 1" "Subjects rb = []"
    using that(1) by (rule mutate_loop_first_bad) (rule mutate_step_none [OF that(2)])
  moreover have "\<not> isl (mutate_loop idMap ([], Map.empty) rbList)"
    if "\<forall>b\<in>set rbList. length (Subjects b) = 1"
    using that by (rule mutate_loop_single_total)
  ultimately show ?thesis
    by (simp add: mutateTenantRoleBindings_isl mutateTenantRoleBindings_Inl mutate_step_none)
qed

theorem empty_subjects_panics_witness:
  "mutate_step [''jdoe'' \<mapsto> ''jdoe@redhat.com''] ([], Map.empty)
     (listed_binding ''team-b'' ''rb-empty'' [] ''appstudio-user'') = Inl (IndexOutOfRange 0 0)
   \<and> mutateTenantRoleBindings (\<lambda>m. [''team-a'', ''team-b'']) [''jdoe'' \<mapsto> ''jdoe@redhat.com'']
     ([listed_binding ''team-a'' ''rb-jdoe'' [''jdoe''] ''appstudio-user'']
      @ listed_binding ''team-b'' ''rb-empty'' [] ''appstudio-user''
      # [listed_binding ''team-b'' ''rb-asmith'' [''asmith''] ''appstudio-user''])
     = Inl (IndexOutOfRange 0 0)
   \<and> \<not> isl (mutateTenantRoleBindings (\<lambda>m. [''team-a'', ''team-b'']) [''jdoe'' \<mapsto> ''jdoe@redhat.com'']
     [listed_binding ''team-a'' ''rb-jdoe'' [''jdoe''] ''appstudio-user''])"
  using empty_subjects_panics [of "listed_binding ''team-b'' ''rb-empty'' [] ''appstudio-user''"
      "[''jdoe'' \<mapsto> ''jdoe@redhat.com'']" "([], Map.empty)"
      "[listed_binding ''team-a'' ''rb-jdoe'' [''jdoe''] ''appstudio-user'']"
      "\<lambda>m. [''team-a'', ''team-b'']"
      "[listed_binding ''team-a'' ''rb-jdoe'' [''jdoe''] ''appstudio-user'']"
      "[listed_binding ''team-b'' ''rb-asmith'' [''asmith''] ''appstudio-user'']"]
  by (simp add: listed_binding_def)

lemma migrated_list_independent_of_range_order:
  "map_sum id fst (mutateTenantRoleBindings range_keys1 idMap rbList)
     = map_sum id fst (mutateTenantRoleBindings range_keys2 idMap rbList)
   \<and> migrate range_keys1 idMap rbList = migrate range_keys2 idMap rbList"
  by (simp add: migrate_def mutateTenantRoleBindings_def split: sum.splits prod.splits)

lemma mutate_step_observe:
  assumes "fst st1 = fst st2" "migrated_count (snd st1) = migrated_count (snd st2)"
  shows "map_sum id (\<lambda>st. (fst st, migrated_count (snd st))) (mutate_step idMap st1 b)
       = map_sum id (\<lambda>st. (fst st, migrated_count (snd st))) (mutate_step idMap st2 b)"
proof -
  have "migrated_count (track_namespace (snd st1) ns) = migrated_count (track_namespace (snd st2) ns)" for ns
    using assms(2) by (simp add: fun_eq_iff)
  moreover have "migrated_count (increment (track_namespace (snd st1) ns) ns)
      = migrated_count (increment (track_namespace (snd st2) ns) ns)" for ns
    using assms(2) by (simp add: fun_eq_iff)
  ultimately show ?thesis
    using assms(1) by (simp add: mutate_step_def Let_def split: list.splits option.splits)
qed

lemma mutate_loop_observe:
  "fst st1 = fst st2 \<Longrightarrow> migrated_count (snd st1) = migrated_count (snd st2) \<Longrightarrow>
   map_sum id (\<lambda>st. (fst st, migrated_count (snd st))) (mutate_loop idMap st1 bs)
     = map_sum id (\<lambda>st. (fst st, migrated_count (snd st))) (mutate_loop idMap st2 bs)"
proof (induction bs arbitrary: st1 st2)
  case Nil
  then show ?case by simp
next
  case (Cons b bs)
  from mutate_step_observe[OF Cons.prems, of idMap b]
  consider e where "mutate_step idMap st1 b = Inl e" "mutate_step idMap st2 b = Inl e"
    | a1 a2 where "mutate_step idMap st1 b = Inr a1" "mutate_step idMap st2 b = Inr a2"
        "fst a1 = fst a2" "migrated_count (snd a1) = migrated_count (snd a2)"
    by (cases "mutate_step idMap st1 b"; cases "mutate_step idMap st2 b") auto
  then show ?case
  proof cases
    case 1
    then show ?thesis by simp
  next
    case 2
    from Cons.IH[OF 2(3,4)] 2(1,2) show ?thesis by simp
  qed
qed

lemma mutate_step_dom:
  assumes "mutate_step idMap st b = Inr st'"
  shows "dom (snd st') = insert (Namespace b) (dom (snd st))"
proof -
  from assms have "length (Subjects b) = 1" by (rule mutate_step_Inr_single)
  then obtain s where s: "Subjects b = [s]" by (auto simp: length_one_conv)
  show ?thesis
  proof (cases "idMap (Subject_Name s)")
    case None
    from mutate_step_unresolved[where idMap = idMap and st = st, OF s None] assms show ?thesis by auto
  next
    case (Some ident)
    from mutate_step_resolved[where idMap = idMap and st = st, OF s Some] assms show ?thesis by auto
  qed
qed

lemma mutate_loop_dom:
  "mutate_loop idMap st bs = Inr st' \<Longrightarrow> dom (snd st') = dom (snd st) \<union> Namespace ` set bs"
proof (induction bs arbitrary: st)
  case Nil
  then show ?case by simp
next
  case (Cons b bs)
  from Cons.prems obtain st1 where s1: "mutate_step idMap st b = Inr st1"
    and l1: "mutate_loop idMap st1 bs = Inr st'"
    by (auto split: sum.splits)
  from Cons.IH[OF l1] mutate_step_dom[OF s1] show ?case by auto
qed

text \<open>
  Claim C4. For a binding whose single subject is not a key of the mapping, the
  iteration adds no migrated record and changes no count, and the namespace is
  tracked. Over a whole list, the run with the binding and the run without it end
  alike, with the same migrated records and the same count for every namespace, and
  the function returns the same migrated list; the namespace of the binding is a key
  of the final map.
\<close>

theorem unresolved_subject_is_dropped:
  assumes "Subjects rb = [s]" "idMap (Subject_Name s) = None"
  shows "mutate_step idMap st rb = Inr (fst st, track_namespace (snd st) (Namespace rb))
    \<and> migrated_count (track_namespace (snd st) (Namespace rb)) = migrated_count (snd st)
    \<and> Namespace rb \<in> dom (track_namespace (snd st) (Namespace rb))
    \<and> map_sum id (\<lambda>st. (fst st, migrated_count (snd st))) (mutate_loop idMap st (pre @ rb # post))
        = map_sum id (\<lambda>st. (fst st, migrated_count (snd st))) (mutate_loop idMap st (pre @ post))
    \<and> map_sum id fst (mutateTenantRoleBindings range_keys idMap (pre @ rb # post))
        = map_sum id fst (mutateTenantRoleBindings range_keys idMap (pre @ post))
    \<and> (\<forall>st'. mutate_loop idMap st (pre @ rb # post) = Inr st' \<longrightarrow> Namespace rb \<in> dom (snd st'))"
proof -
  let ?obs = "\<lambda>st :: mutate_state. (fst st, migrated_count (snd st))"
  have step: "mutate_step idMap st rb = Inr (fst st, track_namespace (snd st) (Namespace rb))" for st
    using assms by (rule mutate_step_unresolved)
  have cnt: "migrated_count (track_namespace pn (Namespace rb)) = migrated_count pn" for pn
    by (simp add: fun_eq_iff)
  have run: "map_sum id ?obs (mutate_loop idMap st (pre @ rb # post))
      = map_sum id ?obs (mutate_loop idMap st (pre @ post))" for st
  proof (cases "mutate_loop idMap st pre")
    case (Inl e)
    then show ?thesis by (simp add: mutate_loop_append)
  next
    case (Inr st1)
    have "map_sum id ?obs (mutate_loop idMap (fst st1, track_namespace (snd st1) (Namespace rb)) post)
        = map_sum id ?obs (mutate_loop idMap st1 post)"
      by (rule mutate_loop_observe) (simp_all add: cnt)
    with Inr show ?thesis by (simp add: mutate_loop_append step)
  qed
  have "map_sum id fst (mutateTenantRoleBindings range_keys idMap (pre @ rb # post))
        = map_sum id fst (mutateTenantRoleBindings range_keys idMap (pre @ post))"
    using run[of "([], Map.empty)"]
    by (cases "mutate_loop idMap ([], Map.empty) (pre @ rb # post)";
        cases "mutate_loop idMap ([], Map.empty) (pre @ post)")
       (auto simp: mutateTenantRoleBindings_def split: prod.splits)
  moreover have "Namespace rb \<in> dom (snd st')"
    if "mutate_loop idMap st (pre @ rb # post) = Inr st'" for st'
    using mutate_loop_dom[OF that] by simp
  ultimately show ?thesis using step cnt run by simp
qed

theorem unresolved_subject_is_dropped_witness:
  "Subjects (listed_binding ''team-b'' ''rb-ghost'' [''ghost''] ''appstudio-user'')
     = [\<lparr>Subject_Kind = ''User'', Subject_APIGroup = ''rbac.authorization.k8s.io'',
         Subject_Name = ''ghost'', Subject_Namespace = []\<rparr>]
   \<and> [''jdoe'' \<mapsto> ''jdoe@redhat.com''] ''ghost'' = None
   \<and> mutate_step [''jdoe'' \<mapsto> ''jdoe@redhat.com''] ([], Map.empty)
        (listed_binding ''team-b'' ''rb-ghost'' [''ghost''] ''appstudio-user'')
      = Inr ([], track_namespace Map.empty ''team-b'')
   \<and> migrated_count (track_namespace Map.empty ''team-b'') ''team-b'' = 0
   \<and> ''team-b'' \<in> dom (track_namespace Map.empty ''team-b'')
   \<and> map_sum id fst (mutateTenantRoleBindings (\<lambda>m. [''team-a'', ''team-b''])
        [''jdoe'' \<mapsto> ''jdoe@redhat.com'']
        ([listed_binding ''team-a'' ''rb-jdoe'' [''jdoe''] ''appstudio-user'']
          @ listed_binding ''team-b'' ''rb-ghost'' [''ghost''] ''appstudio-user'' # []))
      = map_sum id fst (mutateTenantRoleBindings (\<lambda>m. [''team-a'', ''team-b''])
        [''jdoe'' \<mapsto> ''jdoe@redhat.com'']
        [listed_binding ''team-a'' ''rb-jdoe'' [''jdoe''] ''appstudio-user''])"
proof -
  let ?s = "\<lparr>Subject_Kind = ''User'', Subject_APIGroup = ''rbac.authorization.k8s.io'',
         Subject_Name = ''ghost'', Subject_Namespace = []\<rparr>"
  let ?rb = "listed_binding ''team-b'' ''rb-ghost'' [''ghost''] ''appstudio-user''"
  have h1: "Subjects ?rb = [?s]" by (simp add: listed_binding_def)
  have h2: "[''jdoe'' \<mapsto> ''jdoe@redhat.com''] (Subject_Name ?s) = None" by simp
  have ns: "Namespace ?rb = ''team-b''" by (simp add: listed_binding_def)
  from unresolved_subject_is_dropped [where rb = ?rb and s = ?s and idMap = "[''jdoe'' \<mapsto> ''jdoe@redhat.com'']"
      and st = "([], Map.empty)"
      and pre = "[listed_binding ''team-a'' ''rb-jdoe'' [''jdoe''] ''appstudio-user'']"
      and post = "[]" and range_keys = "\<lambda>m. [''team-a'', ''team-b'']", OF h1 h2] h1 h2 ns
  show ?thesis by (simp add: migrated_count_def)
qed

lemma not_Contains_parts:
  "\<not> Contains (pre @ mid @ suf) t \<Longrightarrow> \<not> Contains pre t \<and> \<not> Contains suf t"
  unfolding Contains_def
  by (metis sublist_appendI sublist_order.order_trans sublist_append_leftI sublist_append_rightI)


text \<open>
  Claim C1, as the code has it. A binding whose single subject is a key of the mapping
  is migrated to a record whose role kind is \<open>ClusterRole\<close>. Only the first
  \<open>appstudio\<close> of the role name and of the binding name is replaced by \<open>konflux\<close>,
  and the binding name then has the first occurrence of the subject name replaced by
  the identity. So the new role name has no \<open>appstudio\<close> when the old one had at most
  one. When the old binding name had at most one, none is left in what the new name
  takes from it: the new name has an \<open>appstudio\<close> only if the identity was put in,
  between a part \<open>pre\<close> and a part \<open>suf\<close> without one. It has none when
  moreover the identity has none and, on either side, the neighbouring byte of the name
  or the end byte of the identity is not a letter of \<open>appstudio\<close>, or that side is
  empty.
\<close>

theorem migrated_binding_role_and_names:
  assumes "Subjects rb = [s]" "idMap (Subject_Name s) = Some ident"
  shows "mutate_step idMap st rb =
           Inr (fst st @ [migrated_binding rb s [] ident],
                increment (track_namespace (snd st) (Namespace rb)) (Namespace rb))
    \<and> RoleRef_Kind (RoleRef (migrated_binding rb s [] ident)) = ''ClusterRole''
    \<and> RoleRef_Name (RoleRef (migrated_binding rb s [] ident))
        = Replace1 (RoleRef_Name (RoleRef rb)) ''appstudio'' ''konflux''
    \<and> Name (migrated_binding rb s [] ident)
        = Replace1 (Replace1 (Name rb) ''appstudio'' ''konflux'') (Subject_Name s) ident
    \<and> (occurrences (RoleRef_Name (RoleRef rb)) ''appstudio'' \<le> 1 \<longrightarrow>
         \<not> Contains (RoleRef_Name (RoleRef (migrated_binding rb s [] ident))) ''appstudio'')
    \<and> (occurrences (Name rb) ''appstudio'' \<le> 1 \<longrightarrow>
         \<not> Contains (Replace1 (Name rb) ''appstudio'' ''konflux'') ''appstudio''
         \<and> (\<not> Contains (Name (migrated_binding rb s [] ident)) ''appstudio''
            \<or> (\<exists>pre suf.
                 Replace1 (Name rb) ''appstudio'' ''konflux'' = pre @ Subject_Name s @ suf
                 \<and> Name (migrated_binding rb s [] ident) = pre @ ident @ suf
                 \<and> \<not> Contains pre ''appstudio'' \<and> \<not> Contains suf ''appstudio'')))
    \<and> (occurrences (Name rb) ''appstudio'' \<le> 1
         \<and> Replace1 (Name rb) ''appstudio'' ''konflux'' = pre @ Subject_Name s @ suf
         \<and> Name (migrated_binding rb s [] ident) = pre @ ident @ suf
         \<and> \<not> Contains ident ''appstudio''
         \<and> (pre = [] \<or> last pre \<notin> set ''appstudio''
              \<or> (ident \<noteq> [] \<and> hd ident \<notin> set ''appstudio''))
         \<and> (suf = [] \<or> hd suf \<notin> set ''appstudio''
              \<or> (ident \<noteq> [] \<and> last ident \<notin> set ''appstudio'')) \<longrightarrow>
         \<not> Contains (Name (migrated_binding rb s [] ident)) ''appstudio'')"
proof -
  let ?m = "migrated_binding rb s [] ident"
  let ?n1 = "Replace1 (Name rb) ''appstudio'' ''konflux''"
  have step: "mutate_step idMap st rb =
           Inr (fst st @ [?m], increment (track_namespace (snd st) (Namespace rb)) (Namespace rb))"
    using assms by (rule mutate_step_resolved)
  have kind: "RoleRef_Kind (RoleRef ?m) = ''ClusterRole''"
    by (simp add: migrated_binding_def Let_def)
  have role: "RoleRef_Name (RoleRef ?m) = Replace1 (RoleRef_Name (RoleRef rb)) ''appstudio'' ''konflux''"
    by (simp add: migrated_binding_def Let_def)
  have name: "Name ?m = Replace1 ?n1 (Subject_Name s) ident"
    by (simp add: migrated_binding_def Let_def)
  have r: "\<not> Contains (RoleRef_Name (RoleRef ?m)) ''appstudio''"
    if "occurrences (RoleRef_Name (RoleRef rb)) ''appstudio'' \<le> 1"
    unfolding role using that by (rule Replace1_removes_single_token)
  have n1: "\<not> Contains ?n1 ''appstudio''" if "occurrences (Name rb) ''appstudio'' \<le> 1"
    using that by (rule Replace1_removes_single_token)
  have shape: "\<not> Contains (Name ?m) ''appstudio''
      \<or> (\<exists>pre suf. ?n1 = pre @ Subject_Name s @ suf \<and> Name ?m = pre @ ident @ suf
            \<and> \<not> Contains pre ''appstudio'' \<and> \<not> Contains suf ''appstudio'')"
    if le: "occurrences (Name rb) ''appstudio'' \<le> 1"
  proof (cases "sublist (Subject_Name s) ?n1")
    case False
    then have "Name ?m = ?n1" unfolding name by (rule Replace1_absent)
    with n1[OF le] show ?thesis by simp
  next
    case True
    from Replace1_decomp[OF True, of ident] obtain pre suf where
      d: "?n1 = pre @ Subject_Name s @ suf" "Replace1 ?n1 (Subject_Name s) ident = pre @ ident @ suf"
      by blast
    from n1[OF le] d(1) have "\<not> Contains pre ''appstudio'' \<and> \<not> Contains suf ''appstudio''"
      by (metis not_Contains_parts)
    with d name show ?thesis by metis
  qed
  have clean: "\<not> Contains (Name ?m) ''appstudio''"
    if le: "occurrences (Name rb) ''appstudio'' \<le> 1"
      and d: "?n1 = pre @ Subject_Name s @ suf" "Name ?m = pre @ ident @ suf"
      and i: "\<not> Contains ident ''appstudio''"
      and l: "pre = [] \<or> last pre \<notin> set ''appstudio''
              \<or> (ident \<noteq> [] \<and> hd ident \<notin> set ''appstudio'')"
      and rt: "suf = [] \<or> hd suf \<notin> set ''appstudio''
              \<or> (ident \<noteq> [] \<and> last ident \<notin> set ''appstudio'')"
  proof -
    from n1[OF le] d(1) have ps: "\<not> sublist ''appstudio'' pre" "\<not> sublist ''appstudio'' suf"
      using not_Contains_parts[of pre "Subject_Name s" suf "''appstudio''"]
      by (simp_all add: Contains_def)
    from i have "\<not> sublist ''appstudio'' ident" by (simp add: Contains_def)
    with ps have "\<not> sublist ''appstudio'' (pre @ ident @ suf)"
      using l rt by (intro not_sublist_delimited)
    with d(2) show ?thesis by (simp add: Contains_def)
  qed
  from step kind role name r n1 shape clean show ?thesis by blast
qed


theorem migrated_binding_role_and_names_witness:
  "RoleRef_Kind (RoleRef (migrated_binding
       (listed_binding ''team-a'' ''appstudio-jdoe'' [''jdoe''] ''appstudio-user'')
       \<lparr>Subject_Kind = ''User'', Subject_APIGroup = ''rbac.authorization.k8s.io'',
        Subject_Name = ''jdoe'', Subject_Namespace = []\<rparr> [] ''jdoe@redhat.com'')) = ''ClusterRole''
   \<and> RoleRef_Name (RoleRef (migrated_binding
       (listed_binding ''team-a'' ''appstudio-jdoe'' [''jdoe''] ''appstudio-user'')
       \<lparr>Subject_Kind = ''User'', Subject_APIGroup = ''rbac.authorization.k8s.io'',
        Subject_Name = ''jdoe'', Subject_Namespace = []\<rparr> [] ''jdoe@redhat.com'')) = ''konflux-user''
   \<and> Name (migrated_binding
       (listed_binding ''team-a'' ''appstudio-jdoe'' [''jdoe''] ''appstudio-user'')
       \<lparr>Subject_Kind = ''User'', Subject_APIGroup = ''rbac.authorization.k8s.io'',
        Subject_Name = ''jdoe'', Subject_Namespace = []\<rparr> [] ''jdoe@redhat.com'')
       = ''konflux-jdoe@redhat.com''
   \<and> occurrences ''appstudio-user'' ''appstudio'' \<le> 1
   \<and> occurrences ''appstudio-jdoe'' ''appstudio'' \<le> 1
   \<and> Replace1 ''appstudio-jdoe'' ''appstudio'' ''konflux'' = ''konflux-'' @ ''jdoe'' @ []
   \<and> \<not> Contains ''jdoe@redhat.com'' ''appstudio''
   \<and> last ''konflux-'' \<notin> set ''appstudio''
   \<and> \<not> Contains ''konflux-user'' ''appstudio''
   \<and> \<not> Contains ''konflux-jdoe@redhat.com'' ''appstudio''"
proof -
  let ?s = "\<lparr>Subject_Kind = ''User'', Subject_APIGroup = ''rbac.authorization.k8s.io'',
              Subject_Name = ''jdoe'', Subject_Namespace = []\<rparr>"
  let ?rb = "listed_binding ''team-a'' ''appstudio-jdoe'' [''jdoe''] ''appstudio-user''"
  let ?m = "migrated_binding ?rb ?s [] ''jdoe@redhat.com''"
  have h1: "Subjects ?rb = [?s]" by (simp add: listed_binding_def)
  have h2: "[''jdoe'' \<mapsto> ''jdoe@redhat.com''] (Subject_Name ?s) = Some ''jdoe@redhat.com''" by simp
  have f: "Name ?rb = ''appstudio-jdoe''" "RoleRef_Name (RoleRef ?rb) = ''appstudio-user''"
    "Subject_Name ?s = ''jdoe''"
    by (simp_all add: listed_binding_def)
  have r1: "Replace1 ''appstudio-user'' ''appstudio'' ''konflux'' = ''konflux-user''" by simp
  have r2: "Replace1 ''appstudio-jdoe'' ''appstudio'' ''konflux'' = ''konflux-'' @ ''jdoe'' @ []" by simp
  have r3: "Replace1 (''konflux-'' @ ''jdoe'' @ []) ''jdoe'' ''jdoe@redhat.com''
     = ''konflux-'' @ ''jdoe@redhat.com'' @ []" by simp
  have o1: "occurrences ''appstudio-user'' ''appstudio'' \<le> 1" by simp
  have o2: "occurrences ''appstudio-jdoe'' ''appstudio'' \<le> 1" by simp
  have i: "\<not> Contains ''jdoe@redhat.com'' ''appstudio''"
    by (simp add: Contains_def sublist_Cons_right)
  have l: "last ''konflux-'' \<notin> set ''appstudio''" by simp
  note inst = migrated_binding_role_and_names [where rb = ?rb and s = ?s and idMap = "[''jdoe'' \<mapsto> ''jdoe@redhat.com'']"
      and ident = "''jdoe@redhat.com''" and st = "([], Map.empty)"
      and pre = "''konflux-''" and suf = "[]", OF h1 h2]
  from inst have kind: "RoleRef_Kind (RoleRef ?m) = ''ClusterRole''"
    by (elim conjE)
  from inst have role: "RoleRef_Name (RoleRef ?m) = ''konflux-user''"
    unfolding f r1 by (elim conjE)
  from inst have name: "Name ?m = ''konflux-'' @ ''jdoe@redhat.com'' @ []"
    unfolding f r2 r3 by (elim conjE)
  from inst o1 have nr: "\<not> Contains (RoleRef_Name (RoleRef ?m)) ''appstudio''"
    unfolding f by blast
  from inst o2 r2 name i l have nn: "\<not> Contains (Name ?m) ''appstudio''"
    unfolding f by blast
  from nr have nr': "\<not> Contains ''konflux-user'' ''appstudio''" unfolding role .
  from nn have nn': "\<not> Contains ''konflux-jdoe@redhat.com'' ''appstudio''" unfolding name by simp
  from name have name': "Name ?m = ''konflux-jdoe@redhat.com''" by simp
  from kind role name' o1 o2 r2 i l nr' nn' show ?thesis by (intro conjI)
qed

text \<open>
  Claim C1 as it is written fails in three ways: with \<open>appstudio\<close> twice in the role
  name and in the binding name, the second one stays in both names of the migrated
  record; an identity that has \<open>appstudio\<close> in it brings it into the binding name; and
  an identity can complete one with the bytes before it.
\<close>

theorem migrated_names_keep_later_token:
  "map_sum id (map (\<lambda>m. (RoleRef_Kind (RoleRef m), RoleRef_Name (RoleRef m), Name m)) \<circ> fst)
     (mutateTenantRoleBindings (\<lambda>m. [''team-a'']) [''jdoe'' \<mapsto> ''jdoe@redhat.com'']
        [listed_binding ''team-a'' ''appstudio-jdoe-appstudio'' [''jdoe''] ''appstudio-appstudio-user''])
     = Inr [(''ClusterRole'', ''konflux-appstudio-user'', ''konflux-jdoe@redhat.com-appstudio'')]
   \<and> Contains ''konflux-appstudio-user'' ''appstudio''
   \<and> Contains ''konflux-jdoe@redhat.com-appstudio'' ''appstudio''
   \<and> map_sum id (map (\<lambda>m. (RoleRef_Kind (RoleRef m), RoleRef_Name (RoleRef m), Name m)) \<circ> fst)
     (mutateTenantRoleBindings (\<lambda>m. [''team-a'']) [''bot'' \<mapsto> ''appstudio-bot@redhat.com'']
        [listed_binding ''team-a'' ''appstudio-bot'' [''bot''] ''appstudio-user''])
     = Inr [(''ClusterRole'', ''konflux-user'', ''konflux-appstudio-bot@redhat.com'')]
   \<and> Contains ''konflux-appstudio-bot@redhat.com'' ''appstudio''
   \<and> map_sum id (map (\<lambda>m. (RoleRef_Kind (RoleRef m), RoleRef_Name (RoleRef m), Name m)) \<circ> fst)
     (mutateTenantRoleBindings (\<lambda>m. [''team-a'']) [''jdoe'' \<mapsto> ''io@redhat.com'']
        [listed_binding ''team-a'' ''appstudjdoe'' [''jdoe''] ''appstudio-user''])
     = Inr [(''ClusterRole'', ''konflux-user'', ''appstudio@redhat.com'')]
   \<and> Contains ''appstudio@redhat.com'' ''appstudio''"
  by (simp add: mutateTenantRoleBindings_def mutate_step_def migrated_binding_def
      listed_binding_def track_namespace_def increment_def migrated_count_def orphan_report_def
      Contains_def sublist_Cons_right Let_def)

lemma mutate_step_counts:
  assumes "mutate_step idMap st b = Inr st'"
    and "\<forall>ns. migrated_count (snd st) ns = length (filter (\<lambda>m. Namespace m = ns) (fst st))"
  shows "migrated_count (snd st') ns = length (filter (\<lambda>m. Namespace m = ns) (fst st'))"
proof -
  from assms(1) have "length (Subjects b) = 1" by (rule mutate_step_Inr_single)
  then obtain s where s: "Subjects b = [s]" by (auto simp: length_one_conv)
  show ?thesis
  proof (cases "idMap (Subject_Name s)")
    case None
    from mutate_step_unresolved[where idMap = idMap and st = st, OF s None] assms
    show ?thesis by auto
  next
    case (Some ident)
    from mutate_step_resolved[where idMap = idMap and st = st, OF s Some] assms
    show ?thesis by auto
  qed
qed

lemma mutate_loop_counts:
  "mutate_loop idMap st bs = Inr st' \<Longrightarrow>
   \<forall>ns. migrated_count (snd st) ns = length (filter (\<lambda>m. Namespace m = ns) (fst st)) \<Longrightarrow>
   migrated_count (snd st') ns = length (filter (\<lambda>m. Namespace m = ns) (fst st'))"
proof (induction bs arbitrary: st)
  case Nil
  then show ?case by simp
next
  case (Cons b bs)
  from Cons.prems(1) obtain st1 where s1: "mutate_step idMap st b = Inr st1"
    and l1: "mutate_loop idMap st1 bs = Inr st'"
    by (auto split: sum.splits)
  have "\<forall>ns. migrated_count (snd st1) ns = length (filter (\<lambda>m. Namespace m = ns) (fst st1))"
    using mutate_step_counts[OF s1 Cons.prems(2)] by blast
  with l1 show ?case by (rule Cons.IH)
qed

lemma count_list_distinct:
  "distinct xs \<Longrightarrow> count_list xs x = (if x \<in> set xs then 1 else 0)"
  by (induction xs) auto

lemma count_list_orphan_report:
  "distinct keys \<Longrightarrow>
   count_list (orphan_report keys pn) ns = (if ns \<in> set keys \<and> pn ns = Some 0 then 1 else 0)"
  by (simp add: orphan_report_def count_list_distinct)

text \<open>
  Claim C5. Let the loop end normally with the migrated list and the map of counts,
  and let the runtime range over the keys of that map, each once. Then a namespace
  of some input binding with no migrated binding is printed exactly once as an orphan,
  a namespace of a migrated binding is not printed, and no namespace is printed
  twice.
\<close>

theorem orphan_report_exact:
  assumes "mutate_loop idMap ([], Map.empty) rbList = Inr (mrbList, processedNamespaces)"
    and "range_order (range_keys processedNamespaces) processedNamespaces"
  shows "mutateTenantRoleBindings range_keys idMap rbList
           = Inr (mrbList, orphan_report (range_keys processedNamespaces) processedNamespaces)
    \<and> (ns \<in> Namespace ` set rbList \<and> ns \<notin> Namespace ` set mrbList \<longrightarrow>
          count_list (orphan_report (range_keys processedNamespaces) processedNamespaces) ns = 1)
    \<and> (ns \<in> Namespace ` set mrbList \<longrightarrow>
          ns \<notin> set (orphan_report (range_keys processedNamespaces) processedNamespaces))
    \<and> distinct (orphan_report (range_keys processedNamespaces) processedNamespaces)"
proof -
  let ?keys = "range_keys processedNamespaces"
  from assms(2) have d: "distinct ?keys" and k: "set ?keys = dom processedNamespaces"
    by (simp_all add: range_order_def)
  have dom: "dom processedNamespaces = Namespace ` set rbList"
    using mutate_loop_dom[OF assms(1)] by simp
  have cnt: "migrated_count processedNamespaces ns = length (filter (\<lambda>m. Namespace m = ns) mrbList)"
    using mutate_loop_counts[OF assms(1), of ns] by (simp add: migrated_count_def)
  have run: "mutateTenantRoleBindings range_keys idMap rbList = Inr (mrbList, orphan_report ?keys processedNamespaces)"
    using assms(1) by (simp add: mutateTenantRoleBindings_def)
  have once: "count_list (orphan_report ?keys processedNamespaces) ns = 1"
    if "ns \<in> Namespace ` set rbList" "ns \<notin> Namespace ` set mrbList"
  proof -
    from that(2) have "filter (\<lambda>m. Namespace m = ns) mrbList = []"
      by (auto simp: filter_empty_conv)
    with cnt have "migrated_count processedNamespaces ns = 0" by simp
    moreover from that(1) dom obtain c where "processedNamespaces ns = Some c" by auto
    ultimately have "processedNamespaces ns = Some 0" by (simp add: migrated_count_def)
    moreover from that(1) dom k have "ns \<in> set ?keys" by simp
    ultimately show ?thesis using d by (simp add: count_list_orphan_report)
  qed
  have never: "ns \<notin> set (orphan_report ?keys processedNamespaces)"
    if "ns \<in> Namespace ` set mrbList"
  proof -
    from that have "filter (\<lambda>m. Namespace m = ns) mrbList \<noteq> []"
      by (auto simp: filter_empty_conv)
    with cnt have "migrated_count processedNamespaces ns \<noteq> 0" by simp
    then have "processedNamespaces ns \<noteq> Some 0" by (auto simp: migrated_count_def)
    then show ?thesis by (simp add: orphan_report_def)
  qed
  have "distinct (orphan_report ?keys processedNamespaces)"
    using d by (simp add: orphan_report_def)
  with run once never show ?thesis by blast
qed

theorem orphan_report_exact_witness:
  "mutateTenantRoleBindings (\<lambda>m. filter (\<lambda>ns. m ns \<noteq> None) [''team-b'', ''team-a''])
      [''jdoe'' \<mapsto> ''jdoe@redhat.com'']
      [listed_binding ''team-a'' ''rb-jdoe'' [''jdoe''] ''appstudio-user'',
       listed_binding ''team-b'' ''rb-ghost'' [''ghost''] ''appstudio-user'',
       listed_binding ''team-a'' ''rb-ghost'' [''ghost''] ''appstudio-user'',
       listed_binding ''team-b'' ''rb-ghost2'' [''ghost''] ''appstudio-user'']
    = Inr ([migrated_binding (listed_binding ''team-a'' ''rb-jdoe'' [''jdoe''] ''appstudio-user'')
              \<lparr>Subject_Kind = ''User'', Subject_APIGroup = ''rbac.authorization.k8s.io'',
                Subject_Name = ''jdoe'', Subject_Namespace = []\<rparr> [] ''jdoe@redhat.com''],
           [''team-b''])
   \<and> count_list [''team-b''] ''team-b'' = 1
   \<and> ''team-a'' \<notin> set [''team-b'']"
proof -
  let ?rk = "\<lambda>m :: string \<rightharpoonup> nat. filter (\<lambda>ns. m ns \<noteq> None) [''team-b'', ''team-a'']"
  let ?idMap = "[''jdoe'' \<mapsto> ''jdoe@redhat.com'']"
  let ?rbs = "[listed_binding ''team-a'' ''rb-jdoe'' [''jdoe''] ''appstudio-user'',
       listed_binding ''team-b'' ''rb-ghost'' [''ghost''] ''appstudio-user'',
       listed_binding ''team-a'' ''rb-ghost'' [''ghost''] ''appstudio-user'',
       listed_binding ''team-b'' ''rb-ghost2'' [''ghost''] ''appstudio-user'']"
  let ?m = "migrated_binding (listed_binding ''team-a'' ''rb-jdoe'' [''jdoe''] ''appstudio-user'')
              \<lparr>Subject_Kind = ''User'', Subject_APIGroup = ''rbac.authorization.k8s.io'',
                Subject_Name = ''jdoe'', Subject_Namespace = []\<rparr> [] ''jdoe@redhat.com''"
  let ?pn = "[''team-a'' \<mapsto> 1::nat, ''team-b'' \<mapsto> 0]"
  have loop: "mutate_loop ?idMap ([], Map.empty) ?rbs = Inr ([?m], ?pn)"
    by (simp add: mutate_step_def listed_binding_def track_namespace_def increment_def
        migrated_count_def Let_def fun_upd_twist)
  have ord: "range_order (?rk ?pn) ?pn"
    by (auto simp: range_order_def)
  have rep: "orphan_report (?rk ?pn) ?pn = [''team-b'']"
    by (simp add: orphan_report_def)
  from orphan_report_exact [where range_keys = ?rk, OF loop ord, of "''team-b''"]
  show ?thesis unfolding rep by simp
qed

section \<open>The caller's slice after a call\<close>

text \<open>
  On values the loop with the slice is the loop above, so what is proved of
  \<open>mutateTenantRoleBindings\<close> holds of every single call; and a call that returns
  leaves \<open>write_through\<close> of each element in the slice.
\<close>

lemma mutate_loop_store_values:
  "map_sum id fst (mutate_loop_store idMap st visited rbList) = mutate_loop idMap st rbList"
  by (induction rbList arbitrary: st visited) (auto split: sum.splits)

lemma mutate_loop_store_slice:
  "mutate_loop_store idMap st visited rbList = Inr (st', rbList') \<Longrightarrow>
   rbList' = visited @ map (write_through idMap) rbList"
proof (induction rbList arbitrary: st visited)
  case Nil
  then show ?case by simp
next
  case (Cons rb rbList)
  from Cons.prems obtain st1 where
    "mutate_loop_store idMap st1 (visited @ [write_through idMap rb]) rbList = Inr (st', rbList')"
    by (auto split: sum.splits)
  from Cons.IH[OF this] show ?case by simp
qed

lemma mutateTenantRoleBindings_call_values:
  "map_sum id fst (mutateTenantRoleBindings_call range_keys idMap rbList)
     = mutateTenantRoleBindings range_keys idMap rbList"
proof (cases "mutate_loop_store idMap ([], Map.empty) [] rbList")
  case (Inl e)
  with mutate_loop_store_values[of idMap "([], Map.empty)" "[]" rbList]
  have "mutate_loop idMap ([], Map.empty) rbList = Inl e" by simp
  with Inl show ?thesis
    by (simp add: mutateTenantRoleBindings_call_def mutateTenantRoleBindings_def)
next
  case (Inr r)
  with mutate_loop_store_values[of idMap "([], Map.empty)" "[]" rbList]
  have "mutate_loop idMap ([], Map.empty) rbList = Inr (fst r)" by simp
  with Inr show ?thesis
    by (simp add: mutateTenantRoleBindings_call_def mutateTenantRoleBindings_def
        split: prod.splits)
qed

lemma mutateTenantRoleBindings_call_slice:
  "mutateTenantRoleBindings_call range_keys idMap rbList = Inr (out, rbList') \<Longrightarrow>
   rbList' = map (write_through idMap) rbList"
  using mutate_loop_store_slice[of idMap "([], Map.empty)" "[]" rbList]
  by (auto simp: mutateTenantRoleBindings_call_def split: sum.splits prod.splits)

lemma second_call_on_resolved_binding:
  assumes "Subjects rb = [s]" "idMap (Subject_Name s) = Some ident" "idMap ident = None"
  shows "mutateTenantRoleBindings_twice range_keys idMap [rb]
           = Inr ([migrated_binding rb s [] ident], [])"
proof -
  let ?rb' = "rb\<lparr>Subjects := [s\<lparr>Subject_Name := ident\<rparr>]\<rparr>"
  have w: "write_through idMap rb = ?rb'"
    using assms(1,2) by (simp add: write_through_def)
  have s1: "mutate_step idMap ([], Map.empty) rb
      = Inr ([migrated_binding rb s [] ident],
             increment (track_namespace Map.empty (Namespace rb)) (Namespace rb))"
    using mutate_step_resolved[where idMap = idMap and st = "([], Map.empty)", OF assms(1,2)]
    by simp
  have sub: "Subjects ?rb' = [s\<lparr>Subject_Name := ident\<rparr>]" by simp
  have none: "idMap (Subject_Name (s\<lparr>Subject_Name := ident\<rparr>)) = None"
    using assms(3) by simp
  have s2: "mutate_step idMap ([], Map.empty) ?rb'
      = Inr ([], track_namespace Map.empty (Namespace ?rb'))"
    using mutate_step_unresolved[where idMap = idMap and st = "([], Map.empty)", OF sub none]
    by simp
  have w': "write_through idMap ?rb' = ?rb'"
    using assms(3) by (simp add: write_through_def)
  have c1: "mutateTenantRoleBindings_call range_keys idMap [rb]
      = Inr (([migrated_binding rb s [] ident],
              orphan_report
                (range_keys (increment (track_namespace Map.empty (Namespace rb)) (Namespace rb)))
                (increment (track_namespace Map.empty (Namespace rb)) (Namespace rb))),
             [?rb'])"
    by (simp add: mutateTenantRoleBindings_call_def s1 w)
  have c2: "mutateTenantRoleBindings_call range_keys idMap [?rb']
      = Inr (([], orphan_report (range_keys (track_namespace Map.empty (Namespace ?rb')))
                    (track_namespace Map.empty (Namespace ?rb'))),
             [?rb'])"
    by (simp add: mutateTenantRoleBindings_call_def s2 w')
  show ?thesis
    by (simp add: mutateTenantRoleBindings_twice_def c1 c2)
qed


section \<open>Properties of writeMigratedRoleBindings\<close>

text \<open>
  What the loop does with its keys: the written bindings have pairwise different keys,
  every key of the input that was not seen before is the key of a written binding, and
  of two leading bindings with the same namespace and name the first is written and
  the second is reported.
\<close>

lemma fst_write_loop_Cons:
  "fst (write_loop S (rb # rbs)) =
     (if processedRB_key rb \<in> S then fst (write_loop S rbs)
      else rb # fst (write_loop (insert (processedRB_key rb) S) rbs))"
  by (simp add: case_prod_beta)

lemma snd_write_loop_Cons:
  "snd (write_loop S (rb # rbs)) =
     (if processedRB_key rb \<in> S then rb # snd (write_loop S rbs)
      else snd (write_loop (insert (processedRB_key rb) S) rbs))"
  by (simp add: case_prod_beta)

lemma write_loop_written_keys:
  "processedRB_key ` set (fst (write_loop S rbs)) = processedRB_key ` set rbs - S"
proof (induction rbs arbitrary: S)
  case Nil
  then show ?case by simp
next
  case (Cons rb rbs)
  show ?case
  proof (cases "processedRB_key rb \<in> S")
    case True
    with Cons.IH[of S] show ?thesis
      by (auto simp: fst_write_loop_Cons simp del: write_loop.simps)
  next
    case False
    with Cons.IH[of "insert (processedRB_key rb) S"] show ?thesis
      by (auto simp: fst_write_loop_Cons simp del: write_loop.simps)
  qed
qed

lemma write_loop_distinct_keys:
  "distinct (map processedRB_key (fst (write_loop S rbs)))"
proof (induction rbs arbitrary: S)
  case Nil
  then show ?case by simp
next
  case (Cons rb rbs)
  show ?case
  proof (cases "processedRB_key rb \<in> S")
    case True
    with Cons.IH[of S] show ?thesis
      by (simp add: fst_write_loop_Cons del: write_loop.simps)
  next
    case False
    have "processedRB_key rb \<notin> processedRB_key ` set (fst (write_loop (insert (processedRB_key rb) S) rbs))"
      by (simp add: write_loop_written_keys)
    with False Cons.IH[of "insert (processedRB_key rb) S"] show ?thesis
      by (simp add: fst_write_loop_Cons del: write_loop.simps)
  qed
qed

lemma writeMigratedRoleBindings_first_wins:
  assumes "Namespace rb2 = Namespace rb1" "Name rb2 = Name rb1"
  shows "writeMigratedRoleBindings (rb1 # rb2 # rbs)
     = (rb1 # fst (write_loop {processedRB_key rb1} rbs),
        rb2 # snd (write_loop {processedRB_key rb1} rbs))"
proof -
  from assms have "processedRB_key rb2 = processedRB_key rb1"
    by (simp add: processedRB_key_def)
  then show ?thesis
    by (simp add: writeMigratedRoleBindings_def split: prod.splits)
qed

text \<open>
  Claim C2 at the bindings \<open>x\<close> of namespace \<open>team-a\<close> and \<open>a-x\<close> of namespace \<open>team\<close>:
  the two differ in namespace and in name, their keys are both \<open>(team-a-x)\<close>, and the
  second is reported as already processed instead of being written.
\<close>

theorem writeMigratedRoleBindings_key_collision:
  "writeMigratedRoleBindings
     [listed_binding ''team-a'' ''x'' [''jdoe''] ''konflux-user'',
      listed_binding ''team'' ''a-x'' [''asmith''] ''konflux-user'']
   = ([listed_binding ''team-a'' ''x'' [''jdoe''] ''konflux-user''],
      [listed_binding ''team'' ''a-x'' [''asmith''] ''konflux-user''])
   \<and> (Namespace (listed_binding ''team-a'' ''x'' [''jdoe''] ''konflux-user''),
      Name (listed_binding ''team-a'' ''x'' [''jdoe''] ''konflux-user''))
     \<noteq> (Namespace (listed_binding ''team'' ''a-x'' [''asmith''] ''konflux-user''),
        Name (listed_binding ''team'' ''a-x'' [''asmith''] ''konflux-user''))"
  by (simp add: writeMigratedRoleBindings_def processedRB_key_def listed_binding_def)

end
